theory Spec2Isabelle
  imports Main
begin

section \<open>The JavaScript run-time the date routines rest on\<close>

text \<open>
  \<^verbatim>\<open>parseDateAssume2025\<close> and \<^verbatim>\<open>computeRenewalDate\<close> occur twice in the repository,
  in \<^verbatim>\<open>src/components/CustomerTable.tsx\<close> and in \<^verbatim>\<open>src/components/UserDashboard.tsx\<close>.
  Both are closures over nothing: they read their arguments only, and call regular
  expressions, \<^verbatim>\<open>String\<close> methods, \<^verbatim>\<open>parseInt\<close> and the \<^verbatim>\<open>Date\<close> built-in.
  None of these built-ins throws on a string argument, so the model has no error branch.
  This section models the built-ins after ECMAScript (ECMA-262, clause 21.4 for
  \<^verbatim>\<open>Date\<close>); the next sections translate the two source files.
\<close>

subsection \<open>Time values (ECMA-262, 21.4.1)\<close>

text \<open>
  A time value is an integral number of milliseconds since 1 January 1970 UTC, or
  \<^verbatim>\<open>NaN\<close>. \<^verbatim>\<open>NaN\<close> is \<open>None\<close>; a \<^verbatim>\<open>Date\<close> object is its time value, and a
  \<^verbatim>\<open>Date\<close> whose time value is \<^verbatim>\<open>NaN\<close> is what JavaScript prints as
  \<^verbatim>\<open>Invalid Date\<close>. The source's return type \<^verbatim>\<open>Date | null\<close> is \<open>JSDate option\<close>.
\<close>

datatype JSDate = Date (getTime: "int option")

definition msPerDay :: int where
  "msPerDay = 86400000"

definition maxTime :: int where
  "maxTime = 8640000000000000"

definition Day :: "int \<Rightarrow> int" where
  "Day t = t div msPerDay"

definition TimeWithinDay :: "int \<Rightarrow> int" where
  "TimeWithinDay t = t mod msPerDay"

definition DaysInYear :: "int \<Rightarrow> int" where
  "DaysInYear y =
     (if y mod 4 \<noteq> 0 then 365
      else if y mod 100 \<noteq> 0 then 366
      else if y mod 400 \<noteq> 0 then 365
      else 366)"

definition DayFromYear :: "int \<Rightarrow> int" where
  "DayFromYear y =
     365 * (y - 1970) + (y - 1969) div 4 - (y - 1901) div 100 + (y - 1601) div 400"

lemma div_step:
  fixes a k :: int
  assumes "1 < k"
  shows "(a + 1) div k = a div k + (if (a + 1) mod k = 0 then 1 else 0)"
proof -
  have r: "0 \<le> a mod k" "a mod k < k"
    using assms by simp_all
  have d: "(a + 1) div k = a div k + (a mod k + 1) div k"
    using assms by (simp add: div_add1_eq [of a 1 k])
  have m: "(a + 1) mod k = (a mod k + 1) mod k"
    by (simp add: mod_add_left_eq)
  show ?thesis
  proof (cases "a mod k + 1 = k")
    case True
    then show ?thesis using d m assms by simp
  next
    case False
    then have "a mod k + 1 < k" using r by simp
    then show ?thesis using d m r by (simp add: div_pos_pos_trivial mod_pos_pos_trivial)
  qed
qed

lemma mod_shift: "((y::int) - c * k) mod k = y mod k"
  by (metis mod_mult_self1 diff_conv_add_uminus mult_minus_left mult.commute)

lemma mod_400_100: "(y::int) mod 400 = 0 \<Longrightarrow> y mod 100 = 0"
proof -
  assume "y mod 400 = 0"
  then have "400 dvd y" by (simp add: dvd_eq_mod_eq_0)
  moreover have "(100::int) dvd 400" by simp
  ultimately have "100 dvd y" by (rule dvd_trans [rotated])
  then show ?thesis by simp
qed

lemma mod_100_4: "(y::int) mod 100 = 0 \<Longrightarrow> y mod 4 = 0"
proof -
  assume "y mod 100 = 0"
  then have "100 dvd y" by (simp add: dvd_eq_mod_eq_0)
  moreover have "(4::int) dvd 100" by simp
  ultimately have "4 dvd y" by (rule dvd_trans [rotated])
  then show ?thesis by simp
qed

text \<open>A year is 365 or 366 days long, and \<open>DayFromYear\<close> counts them.\<close>

lemma DayFromYear_step: "DayFromYear (y + 1) = DayFromYear y + DaysInYear y"
proof -
  have a: "(y + 1 - 1969) div 4 = (y - 1969) div 4 + (if y mod 4 = 0 then 1 else 0)"
    using div_step [of 4 "y - 1969"] mod_shift [of y 492 4] by (simp add: algebra_simps)
  have b: "(y + 1 - 1901) div 100 = (y - 1901) div 100 + (if y mod 100 = 0 then 1 else 0)"
    using div_step [of 100 "y - 1901"] mod_shift [of y 19 100] by (simp add: algebra_simps)
  have c: "(y + 1 - 1601) div 400 = (y - 1601) div 400 + (if y mod 400 = 0 then 1 else 0)"
    using div_step [of 400 "y - 1601"] mod_shift [of y 4 400] by (simp add: algebra_simps)
  show ?thesis
    unfolding DayFromYear_def DaysInYear_def a b c
    using mod_400_100 [of y] mod_100_4 [of y] by auto
qed

lemma DaysInYear_cases: "DaysInYear y = 365 \<or> DaysInYear y = 366"
  by (simp add: DaysInYear_def)

lemma DayFromYear_pred_less: "DayFromYear (y - 1) < DayFromYear y"
  using DayFromYear_step [of "y - 1"] DaysInYear_cases [of "y - 1"] by auto

text \<open>
  \<^verbatim>\<open>YearFromTime(t)\<close> is "the largest integer \<open>y\<close> such that \<^verbatim>\<open>TimeFromYear(y) \<le> t\<close>".
  \<open>year_search\<close> walks down from a year that is not too small.
\<close>

function year_search :: "int \<Rightarrow> int \<Rightarrow> int" where
  "year_search y d = (if DayFromYear y \<le> d then y else year_search (y - 1) d)"
  by pat_completeness auto
termination
proof (relation "measure (\<lambda>(y, d). nat (DayFromYear y - d))")
  show "wf (measure (\<lambda>(y, d). nat (DayFromYear y - d)))"
    by simp
next
  fix y d :: int
  assume "\<not> DayFromYear y \<le> d"
  then show "((y - 1, d), (y, d)) \<in> measure (\<lambda>(y, d). nat (DayFromYear y - d))"
    using DayFromYear_pred_less [of y] by simp
qed

declare year_search.simps [simp del]

definition YearFromDay :: "int \<Rightarrow> int" where
  "YearFromDay d = year_search (1970 + (if 0 \<le> d then d div 365 else d div 366)) d"

definition YearFromTime :: "int \<Rightarrow> int" where
  "YearFromTime t = YearFromDay (Day t)"

definition InLeapYear :: "int \<Rightarrow> int" where
  "InLeapYear t = (if DaysInYear (YearFromTime t) = 366 then 1 else 0)"

definition DayWithinYear :: "int \<Rightarrow> int" where
  "DayWithinYear t = Day t - DayFromYear (YearFromTime t)"

text \<open>
  The month table of 21.4.1.11: \<open>month_start m l\<close> is the day within the year on which
  month \<open>m\<close> (0 for January) begins, \<open>l\<close> being 1 in a leap year and 0 otherwise.
\<close>

definition month_start :: "int \<Rightarrow> int \<Rightarrow> int" where
  "month_start m l =
     (if m = 0 then 0
      else if m = 1 then 31
      else if m = 2 then 59 + l
      else if m = 3 then 90 + l
      else if m = 4 then 120 + l
      else if m = 5 then 151 + l
      else if m = 6 then 181 + l
      else if m = 7 then 212 + l
      else if m = 8 then 243 + l
      else if m = 9 then 273 + l
      else if m = 10 then 304 + l
      else 334 + l)"

definition MonthFromTime :: "int \<Rightarrow> int" where
  "MonthFromTime t =
     (let d = DayWithinYear t; l = InLeapYear t in
      if d < 31 then 0
      else if d < 59 + l then 1
      else if d < 90 + l then 2
      else if d < 120 + l then 3
      else if d < 151 + l then 4
      else if d < 181 + l then 5
      else if d < 212 + l then 6
      else if d < 243 + l then 7
      else if d < 273 + l then 8
      else if d < 304 + l then 9
      else if d < 334 + l then 10
      else 11)"

definition DateFromTime :: "int \<Rightarrow> int" where
  "DateFromTime t = DayWithinYear t - month_start (MonthFromTime t) (InLeapYear t) + 1"

text \<open>
  \<^verbatim>\<open>MakeDay(year, month, date)\<close> (21.4.1.28): the month may lie outside 0..11 and the
  date outside the month; both carry over.
\<close>

definition MakeDay :: "int \<Rightarrow> int \<Rightarrow> int \<Rightarrow> int" where
  "MakeDay year month date =
     (let ym = year + month div 12; mn = month mod 12 in
      DayFromYear ym + month_start mn (if DaysInYear ym = 366 then 1 else 0) + date - 1)"

definition MakeTime :: "int \<Rightarrow> int \<Rightarrow> int \<Rightarrow> int \<Rightarrow> int" where
  "MakeTime hour minute sec ms = hour * 3600000 + minute * 60000 + sec * 1000 + ms"

definition MakeDate :: "int \<Rightarrow> int \<Rightarrow> int" where
  "MakeDate day time = day * msPerDay + time"

definition TimeClip :: "int \<Rightarrow> int option" where
  "TimeClip t = (if maxTime < \<bar>t\<bar> then None else Some t)"

definition days_in_month :: "int \<Rightarrow> int \<Rightarrow> int" where
  "days_in_month y m =
     (if m = 2 then (if DaysInYear y = 366 then 29 else 28)
      else if m = 4 \<or> m = 6 \<or> m = 9 \<or> m = 11 then 30
      else 31)"

subsection \<open>Strings and regular expressions\<close>

text \<open>
  A JavaScript string is a sequence of code units; the model uses \<open>string\<close>. The
  classes the source's regular expressions use contain ASCII characters only: \<^verbatim>\<open>\d\<close>
  is \<^verbatim>\<open>[0-9]\<close> and \<^verbatim>\<open>\w\<close> is \<^verbatim>\<open>[A-Za-z0-9_]\<close>, also under the \<^verbatim>\<open>i\<close> flag
  (without the \<^verbatim>\<open>u\<close> flag no character beyond ASCII folds into the class).
\<close>

definition is_digit :: "char \<Rightarrow> bool" where
  "is_digit c = (c \<in> set ''0123456789'')"

definition is_word_char :: "char \<Rightarrow> bool" where
  "is_word_char c =
     (c \<in> set ''abcdefghijklmnopqrstuvwxyzABCDEFGHIJKLMNOPQRSTUVWXYZ0123456789_'')"

datatype cclass = Digit | WordChar | Sign | Lit char

fun in_class :: "cclass \<Rightarrow> char \<Rightarrow> bool" where
  "in_class Digit c = is_digit c"
| "in_class WordChar c = is_word_char c"
| "in_class Sign c = (c = CHR ''+'' \<or> c = CHR ''-'')"
| "in_class (Lit k) c = (c = k)"

text \<open>
  The patterns of the source are sequences of character classes with a repetition count,
  anchored at both ends (\<^verbatim>\<open>^\<close> ... \<^verbatim>\<open>$\<close>, no \<^verbatim>\<open>m\<close> flag, so \<^verbatim>\<open>$\<close> is the end of the
  input). \<open>Rep c lo hi\<close> is \<^verbatim>\<open>c{lo,hi}\<close>. Matching is greedy with backtracking: the
  largest count is tried first. A match yields the text each item consumed.
\<close>

datatype atom = Rep cclass nat nat

abbreviation Ch :: "char \<Rightarrow> atom" where
  "Ch c \<equiv> Rep (Lit c) 1 1"

definition attempt ::
  "(string \<Rightarrow> string list option) \<Rightarrow> cclass \<Rightarrow> string \<Rightarrow> nat \<Rightarrow> string list option" where
  "attempt k c s n =
     (if n \<le> length s \<and> list_all (in_class c) (take n s)
      then map_option ((#) (take n s)) (k (drop n s))
      else None)"

fun rep_try ::
  "(string \<Rightarrow> string list option) \<Rightarrow> cclass \<Rightarrow> string \<Rightarrow> nat \<Rightarrow> nat \<Rightarrow> string list option" where
  "rep_try k c s lo 0 = attempt k c s lo"
| "rep_try k c s lo (Suc e) =
     (case attempt k c s (lo + Suc e) of
        Some r \<Rightarrow> Some r
      | None \<Rightarrow> rep_try k c s lo e)"

primrec regex_match :: "atom list \<Rightarrow> string \<Rightarrow> string list option" where
  "regex_match [] s = (if s = [] then Some [] else None)"
| "regex_match (a # as) s =
     (case a of Rep c lo hi \<Rightarrow> rep_try (regex_match as) c s lo (hi - lo))"

text \<open>\<^verbatim>\<open>RegExp.prototype.test\<close>.\<close>

definition regex_test :: "atom list \<Rightarrow> string \<Rightarrow> bool" where
  "regex_test p s = (regex_match p s \<noteq> None)"

text \<open>
  \<^verbatim>\<open>String.prototype.match\<close> with a pattern without the \<^verbatim>\<open>g\<close> flag: \<^verbatim>\<open>null\<close>, or
  the array of the whole match followed by the capture groups. \<open>gs\<close> lists the items of
  the pattern that are capture groups; \<open>grp m i\<close> reads \<^verbatim>\<open>m[i]\<close>.
\<close>

definition grp :: "string list \<Rightarrow> nat \<Rightarrow> string" where
  "grp m i = (if i < length m then m ! i else [])"

definition string_match :: "atom list \<Rightarrow> nat list \<Rightarrow> string \<Rightarrow> string list option" where
  "string_match p gs s = map_option (\<lambda>segs. s # map (grp segs) gs) (regex_match p s)"

text \<open>\<^verbatim>\<open>s.replace(/\//g, '-')\<close>: every occurrence of the character is replaced.\<close>

definition replace_all :: "char \<Rightarrow> string \<Rightarrow> string \<Rightarrow> string" where
  "replace_all c r s = concat (map (\<lambda>x. if x = c then r else [x]) s)"

text \<open>\<^verbatim>\<open>s.split(sep)\<close> with a one-character separator.\<close>

fun split_on :: "char \<Rightarrow> string \<Rightarrow> string list" where
  "split_on sep [] = [[]]"
| "split_on sep (c # cs) =
     (if c = sep then [] # split_on sep cs
      else (case split_on sep cs of
              [] \<Rightarrow> [[c]]
            | w # ws \<Rightarrow> (c # w) # ws))"

text \<open>
  Array destructuring \<^verbatim>\<open>const [dd, mm, yyyy] = parts\<close> followed by a template literal:
  a missing element is \<^verbatim>\<open>undefined\<close> and prints as such.
\<close>

definition elem :: "string list \<Rightarrow> nat \<Rightarrow> string" where
  "elem parts i = (if i < length parts then parts ! i else ''undefined'')"

text \<open>
  \<^verbatim>\<open>String.prototype.toLowerCase\<close>, on the characters it meets in the source: the
  argument is a match of \<^verbatim>\<open>\w{3}\<close>, where only the letters A to Z change.
\<close>

definition lower_char :: "char \<Rightarrow> char" where
  "lower_char c =
     (case map_of (zip ''ABCDEFGHIJKLMNOPQRSTUVWXYZ'' ''abcdefghijklmnopqrstuvwxyz'') c of
        None \<Rightarrow> c
      | Some l \<Rightarrow> l)"

definition toLowerCase :: "string \<Rightarrow> string" where
  "toLowerCase s = map lower_char s"

text \<open>
  \<^verbatim>\<open>parseInt(s, 10)\<close>: leading white space and one sign are skipped, the longest prefix
  of decimal digits is read, and the result is \<^verbatim>\<open>NaN\<close> when there is none. The
  source passes a match of \<^verbatim>\<open>\d{1,2}\<close>, which has neither white space nor a sign; of
  the white space characters the model knows the ASCII ones.
\<close>

definition digit_value :: "char \<Rightarrow> int" where
  "digit_value c = int (of_char c) - 48"

definition decimal :: "string \<Rightarrow> int" where
  "decimal ds = foldl (\<lambda>a c. 10 * a + digit_value c) 0 ds"

definition is_space :: "char \<Rightarrow> bool" where
  "is_space c = (c \<in> set [CHR 0x09, CHR 0x0A, CHR 0x0B, CHR 0x0C, CHR 0x0D, CHR 0x20])"

definition parseInt10 :: "string \<Rightarrow> int option" where
  "parseInt10 s =
     (let s1 = dropWhile is_space s;
          sign = (case s1 of [] \<Rightarrow> 1 | c # _ \<Rightarrow> if c = CHR ''-'' then - 1 else 1);
          s2 = (case s1 of [] \<Rightarrow> [] | c # r \<Rightarrow> if c = CHR ''-'' \<or> c = CHR ''+'' then r else s1);
          ds = takeWhile is_digit s2
      in if ds = [] then None else Some (sign * decimal ds))"

subsection \<open>The \<^verbatim>\<open>Date\<close> built-in\<close>

text \<open>
  \<^verbatim>\<open>Date.parse\<close> is fixed by ECMAScript on the Date Time String Format and left to the
  implementation elsewhere (21.4.3.2). The source builds strings of the form
  \<^verbatim>\<open>YYYY-MM-DDT00:00:00Z\<close>; on these, and on the same form with an expanded year
  \<^verbatim>\<open>+YYYYYY\<close> or \<^verbatim>\<open>-YYYYYY\<close>, the model computes the time value. A month outside
  01..12 or a day outside 01..31 gives \<^verbatim>\<open>NaN\<close>. For a day of 29, 30 or 31 that the
  month does not have, implementations differ: V8 carries it into the next month,
  SpiderMonkey and JavaScriptCore give \<^verbatim>\<open>NaN\<close>. The \<open>engine\<close> says which
  (\<open>day_rollover\<close>), and gives the result of \<^verbatim>\<open>Date.parse\<close> on every other string
  (\<open>native_parse\<close>; it depends on the implementation and on the local time zone).
\<close>

record engine =
  native_parse :: "string \<Rightarrow> int option"
  day_rollover :: bool

definition utc_midnight :: "atom list" where
  "utc_midnight =
     [Ch CHR ''-'', Rep Digit 2 2, Ch CHR ''-'', Rep Digit 2 2] @ map Ch ''T00:00:00Z''"

definition date_value :: "engine \<Rightarrow> int \<Rightarrow> int \<Rightarrow> int \<Rightarrow> int option" where
  "date_value E y m d =
     (if 1 \<le> m \<and> m \<le> 12 \<and> 1 \<le> d \<and> d \<le> (if day_rollover E then 31 else days_in_month y m)
      then Some (MakeDate (MakeDay y (m - 1) d) (MakeTime 0 0 0 0))
      else None)"

definition Date_parse :: "engine \<Rightarrow> string \<Rightarrow> int option" where
  "Date_parse E s =
     (case regex_match (Rep Digit 4 4 # utc_midnight) s of
        Some segs \<Rightarrow>
          date_value E (decimal (grp segs 0)) (decimal (grp segs 2)) (decimal (grp segs 4))
      | None \<Rightarrow>
         (case regex_match (Rep Sign 1 1 # Rep Digit 6 6 # utc_midnight) s of
            Some segs \<Rightarrow>
              (if grp segs 0 = ''-'' \<and> decimal (grp segs 1) = 0 then None
               else date_value E
                      ((if grp segs 0 = ''-'' then - 1 else 1) * decimal (grp segs 1))
                      (decimal (grp segs 3)) (decimal (grp segs 5)))
          | None \<Rightarrow> native_parse E s))"

text \<open>
  The three uses of the constructor in the source: \<^verbatim>\<open>new Date(string)\<close>,
  \<^verbatim>\<open>new Date(number)\<close> and \<^verbatim>\<open>new Date(date)\<close>. Each stores \<^verbatim>\<open>TimeClip\<close> of the
  time value it computes.
\<close>

definition clip :: "int option \<Rightarrow> int option" where
  "clip tv = (case tv of None \<Rightarrow> None | Some t \<Rightarrow> TimeClip t)"

definition new_Date_string :: "engine \<Rightarrow> string \<Rightarrow> JSDate" where
  "new_Date_string E s = Date (clip (Date_parse E s))"

definition new_Date_number :: "int option \<Rightarrow> JSDate" where
  "new_Date_number v = Date (clip v)"

definition new_Date_copy :: "JSDate \<Rightarrow> JSDate" where
  "new_Date_copy d = Date (clip (getTime d))"

text \<open>
  \<^verbatim>\<open>Date.UTC(year, month, date)\<close> (21.4.3.4): hours, minutes, seconds and milliseconds
  default to 0; a year from 0 to 99 means 1900 + year. The date may be \<^verbatim>\<open>NaN\<close>.
\<close>

definition Date_UTC :: "int \<Rightarrow> int \<Rightarrow> int option \<Rightarrow> int option" where
  "Date_UTC year month date =
     (case date of
        None \<Rightarrow> None
      | Some dt \<Rightarrow>
          (let yr = (if 0 \<le> year \<and> year \<le> 99 then 1900 + year else year)
           in TimeClip (MakeDate (MakeDay yr month dt) (MakeTime 0 0 0 0))))"

definition getUTCDate :: "JSDate \<Rightarrow> int option" where
  "getUTCDate d = map_option DateFromTime (getTime d)"

text \<open>
  \<^verbatim>\<open>Date.prototype.setUTCDate(date)\<close> (21.4.4.28). The source calls it on a fresh copy;
  the model returns the updated object.
\<close>

definition setUTCDate :: "JSDate \<Rightarrow> int option \<Rightarrow> JSDate" where
  "setUTCDate d date =
     (case getTime d of
        None \<Rightarrow> Date None
      | Some t \<Rightarrow>
         (case date of
            None \<Rightarrow> Date None
          | Some dt \<Rightarrow>
              Date (TimeClip (MakeDate (MakeDay (YearFromTime t) (MonthFromTime t) dt)
                                       (TimeWithinDay t)))))"

text \<open>The calendar date a \<^verbatim>\<open>Date\<close> shows in UTC: year, month (1 to 12) and day.\<close>

definition utc_ymd :: "JSDate \<Rightarrow> (int \<times> int \<times> int) option" where
  "utc_ymd d =
     map_option (\<lambda>t. (YearFromTime t, MonthFromTime t + 1, DateFromTime t)) (getTime d)"

section \<open>\<^verbatim>\<open>src/components/CustomerTable.tsx\<close>\<close>

text \<open>The four patterns of \<^verbatim>\<open>parseDateAssume2025\<close>, lines 99 to 102.\<close>

definition iso :: "atom list" where
  "iso = [Rep Digit 4 4, Ch CHR ''-'', Rep Digit 2 2, Ch CHR ''-'', Rep Digit 2 2]"

definition ymdSlash :: "atom list" where
  "ymdSlash = [Rep Digit 4 4, Ch CHR ''/'', Rep Digit 2 2, Ch CHR ''/'', Rep Digit 2 2]"

definition dmySlash :: "atom list" where
  "dmySlash = [Rep Digit 2 2, Ch CHR ''/'', Rep Digit 2 2, Ch CHR ''/'', Rep Digit 4 4]"

text \<open>\<^verbatim>\<open>/^(\d{1,2})-(\w{3})$/i\<close>: the first and the third item are the capture groups.\<close>

definition dMon :: "atom list" where
  "dMon = [Rep Digit 1 2, Ch CHR ''-'', Rep WordChar 3 3]"

definition dMon_groups :: "nat list" where
  "dMon_groups = [0, 2]"

text \<open>The object literal \<^verbatim>\<open>map\<close> of line 115.\<close>

definition month_map :: "(string \<times> int) list" where
  "month_map =
     [(''jan'', 1), (''feb'', 2), (''mar'', 3), (''apr'', 4), (''may'', 5), (''jun'', 6),
      (''jul'', 7), (''aug'', 8), (''sep'', 9), (''oct'', 10), (''nov'', 11), (''dec'', 12)]"

text \<open>
  Lines 96 to 123. \<^verbatim>\<open>!dateString\<close> holds of \<^verbatim>\<open>null\<close> and of the empty string;
  \<^verbatim>\<open>if (month)\<close> holds of a number other than 0 and fails for \<^verbatim>\<open>undefined\<close>.
\<close>

definition parseDateAssume2025 :: "engine \<Rightarrow> string option \<Rightarrow> JSDate option" where
  "parseDateAssume2025 E dateString =
     (case dateString of
        None \<Rightarrow> None
      | Some s \<Rightarrow>
          if s = [] then None
          else if regex_test iso s then Some (new_Date_string E (s @ ''T00:00:00Z''))
          else if regex_test ymdSlash s
            then Some (new_Date_string E (replace_all CHR ''/'' ''-'' s @ ''T00:00:00Z''))
          else if regex_test dmySlash s
            then (let parts = split_on CHR ''/'' s;
                      dd = elem parts 0; mm = elem parts 1; yyyy = elem parts 2
                  in Some (new_Date_string E (yyyy @ ''-'' @ mm @ ''-'' @ dd @ ''T00:00:00Z'')))
          else
            (case (case string_match dMon dMon_groups s of
                     None \<Rightarrow> None
                   | Some m \<Rightarrow>
                       (let day = parseInt10 (grp m 1);
                            monAbbr = toLowerCase (grp m 2)
                        in case map_of month_map monAbbr of
                             None \<Rightarrow> None
                           | Some month \<Rightarrow>
                               if month \<noteq> 0
                               then Some (new_Date_number (Date_UTC 2025 (month - 1) day))
                               else None)) of
               Some r \<Rightarrow> Some r
             | None \<Rightarrow>
                 (let d = new_Date_string E s
                  in if getTime d \<noteq> None then Some d else None)))"

text \<open>
  Lines 131 to 140. \<^verbatim>\<open>if (existing)\<close> holds of every \<^verbatim>\<open>Date\<close> object, also of one
  whose time value is \<^verbatim>\<open>NaN\<close>; \<^verbatim>\<open>getUTCDate() + 30\<close> is \<^verbatim>\<open>NaN\<close> when the date is.
\<close>

definition computeRenewalDate ::
  "engine \<Rightarrow> string option \<Rightarrow> string option \<Rightarrow> JSDate option" where
  "computeRenewalDate E charging existingRenewal =
     (case parseDateAssume2025 E existingRenewal of
        Some existing \<Rightarrow> Some existing
      | None \<Rightarrow>
         (case parseDateAssume2025 E charging of
            None \<Rightarrow> None
          | Some base \<Rightarrow>
              (let result = new_Date_copy base
               in Some (setUTCDate result (map_option (\<lambda>n. n + 30) (getUTCDate result))))))"

section \<open>\<^verbatim>\<open>src/components/UserDashboard.tsx\<close>\<close>

text \<open>
  The second copy of the two functions, lines 56 to 99, translated on its own: the
  patterns of lines 59 to 62, the object literal of line 75 and the two bodies.
\<close>

definition UserDashboard_iso :: "atom list" where
  "UserDashboard_iso = [Rep Digit 4 4, Ch CHR ''-'', Rep Digit 2 2, Ch CHR ''-'', Rep Digit 2 2]"

definition UserDashboard_ymdSlash :: "atom list" where
  "UserDashboard_ymdSlash =
     [Rep Digit 4 4, Ch CHR ''/'', Rep Digit 2 2, Ch CHR ''/'', Rep Digit 2 2]"

definition UserDashboard_dmySlash :: "atom list" where
  "UserDashboard_dmySlash =
     [Rep Digit 2 2, Ch CHR ''/'', Rep Digit 2 2, Ch CHR ''/'', Rep Digit 4 4]"

definition UserDashboard_dMon :: "atom list" where
  "UserDashboard_dMon = [Rep Digit 1 2, Ch CHR ''-'', Rep WordChar 3 3]"

definition UserDashboard_dMon_groups :: "nat list" where
  "UserDashboard_dMon_groups = [0, 2]"

definition UserDashboard_month_map :: "(string \<times> int) list" where
  "UserDashboard_month_map =
     [(''jan'', 1), (''feb'', 2), (''mar'', 3), (''apr'', 4), (''may'', 5), (''jun'', 6),
      (''jul'', 7), (''aug'', 8), (''sep'', 9), (''oct'', 10), (''nov'', 11), (''dec'', 12)]"

definition UserDashboard_parseDateAssume2025 :: "engine \<Rightarrow> string option \<Rightarrow> JSDate option" where
  "UserDashboard_parseDateAssume2025 E dateString =
     (case dateString of
        None \<Rightarrow> None
      | Some s \<Rightarrow>
          if s = [] then None
          else if regex_test UserDashboard_iso s
            then Some (new_Date_string E (s @ ''T00:00:00Z''))
          else if regex_test UserDashboard_ymdSlash s
            then Some (new_Date_string E (replace_all CHR ''/'' ''-'' s @ ''T00:00:00Z''))
          else if regex_test UserDashboard_dmySlash s
            then (let parts = split_on CHR ''/'' s;
                      dd = elem parts 0; mm = elem parts 1; yyyy = elem parts 2
                  in Some (new_Date_string E (yyyy @ ''-'' @ mm @ ''-'' @ dd @ ''T00:00:00Z'')))
          else
            (case (case string_match UserDashboard_dMon UserDashboard_dMon_groups s of
                     None \<Rightarrow> None
                   | Some m \<Rightarrow>
                       (let day = parseInt10 (grp m 1);
                            monAbbr = toLowerCase (grp m 2)
                        in case map_of UserDashboard_month_map monAbbr of
                             None \<Rightarrow> None
                           | Some month \<Rightarrow>
                               if month \<noteq> 0
                               then Some (new_Date_number (Date_UTC 2025 (month - 1) day))
                               else None)) of
               Some r \<Rightarrow> Some r
             | None \<Rightarrow>
                 (let d = new_Date_string E s
                  in if getTime d \<noteq> None then Some d else None)))"

definition UserDashboard_computeRenewalDate ::
  "engine \<Rightarrow> string option \<Rightarrow> string option \<Rightarrow> JSDate option" where
  "UserDashboard_computeRenewalDate E charging existingRenewal =
     (case UserDashboard_parseDateAssume2025 E existingRenewal of
        Some existing \<Rightarrow> Some existing
      | None \<Rightarrow>
         (case UserDashboard_parseDateAssume2025 E charging of
            None \<Rightarrow> None
          | Some base \<Rightarrow>
              (let result = new_Date_copy base
               in Some (setUTCDate result (map_option (\<lambda>n. n + 30) (getUTCDate result))))))"

section \<open>Auxiliary notions for the statements\<close>

text \<open>A string of exactly \<open>n\<close> decimal digits, and one of exactly \<open>n\<close> word characters.\<close>

definition digits :: "nat \<Rightarrow> string \<Rightarrow> bool" where
  "digits n x = (length x = n \<and> list_all is_digit x)"

definition word_chars :: "nat \<Rightarrow> string \<Rightarrow> bool" where
  "word_chars n x = (length x = n \<and> list_all is_word_char x)"

text \<open>
  The last step of \<^verbatim>\<open>parseDateAssume2025\<close>, lines 120 to 122: the generic fallback.
\<close>

definition generic_fallback :: "engine \<Rightarrow> string \<Rightarrow> JSDate option" where
  "generic_fallback E s =
     (let d = new_Date_string E s in if getTime d \<noteq> None then Some d else None)"

text \<open>
  An implementation for the closed examples: its \<^verbatim>\<open>Date.parse\<close> accepts nothing
  outside the Date Time String Format and does not carry days over.
\<close>

definition strict_engine :: engine where
  "strict_engine = \<lparr>native_parse = (\<lambda>s. None), day_rollover = False\<rparr>"

text \<open>
  An implementation that reads \<^verbatim>\<open>5/8/2025\<close> month first, as V8 does for such
  strings: 8 May 2025, taken here at UTC midnight. It carries days over.
\<close>

definition month_first_engine :: engine where
  "month_first_engine =
     \<lparr>native_parse = (\<lambda>s. if s = ''5/8/2025'' then Some 1746662400000 else None),
      day_rollover = True\<rparr>"

subsection \<open>The formats of the specification\<close>

text \<open>
  Specification side, for the claim about precedence. Section 4.1 of the specification
  names four formats and an order: ISO, slash year-first, slash day-first,
  day-abbreviated-month, then the generic fallback. \<open>spec_matches\<close> says in the
  specification's terms, by positions and without regular expressions, what it is to be
  of a format: \<^verbatim>\<open>YYYY-MM-DD\<close>, \<^verbatim>\<open>YYYY/MM/DD\<close> and \<^verbatim>\<open>DD/MM/YYYY\<close> are three digit
  fields of the given lengths around two separators; \<^verbatim>\<open>D-Mon\<close> and \<^verbatim>\<open>DD-Mon\<close> are one
  or two digits, a hyphen and three characters that are, in any case, one of the twelve
  abbreviations. \<open>branch_result\<close> is what the branch of the source for a format
  returns (lines 104 to 118), and \<open>spec_parse\<close> lets the first format of the order
  that the input is of decide.
\<close>

datatype format = ISO | SlashYearFirst | SlashDayFirst | DayAbbrMonth

definition format_order :: "format list" where
  "format_order = [ISO, SlashYearFirst, SlashDayFirst, DayAbbrMonth]"

definition spec_numeric :: "char \<Rightarrow> nat \<Rightarrow> nat \<Rightarrow> nat \<Rightarrow> string \<Rightarrow> bool" where
  "spec_numeric sep n1 n2 n3 s =
     (let a = take n1 s; b = take n2 (drop (n1 + 1) s); c = drop (n1 + n2 + 2) s
      in s = a @ [sep] @ b @ [sep] @ c \<and> digits n1 a \<and> digits n2 b \<and> digits n3 c)"

definition spec_day_month :: "string \<Rightarrow> bool" where
  "spec_day_month s =
     (let d = takeWhile is_digit s; w = drop (length d + 1) s
      in (length d = 1 \<or> length d = 2) \<and> s = d @ ''-'' @ w \<and> length w = 3 \<and>
         map_of month_map (toLowerCase w) \<noteq> None)"

definition spec_matches :: "format \<Rightarrow> string \<Rightarrow> bool" where
  "spec_matches f s =
     (case f of
        ISO \<Rightarrow> spec_numeric CHR ''-'' 4 2 2 s
      | SlashYearFirst \<Rightarrow> spec_numeric CHR ''/'' 4 2 2 s
      | SlashDayFirst \<Rightarrow> spec_numeric CHR ''/'' 2 2 4 s
      | DayAbbrMonth \<Rightarrow> spec_day_month s)"

definition branch_result :: "engine \<Rightarrow> format \<Rightarrow> string \<Rightarrow> JSDate option" where
  "branch_result E f s =
     (case f of
        ISO \<Rightarrow> Some (new_Date_string E (s @ ''T00:00:00Z''))
      | SlashYearFirst \<Rightarrow>
          Some (new_Date_string E (replace_all CHR ''/'' ''-'' s @ ''T00:00:00Z''))
      | SlashDayFirst \<Rightarrow>
          (let parts = split_on CHR ''/'' s;
               dd = elem parts 0; mm = elem parts 1; yyyy = elem parts 2
           in Some (new_Date_string E (yyyy @ ''-'' @ mm @ ''-'' @ dd @ ''T00:00:00Z'')))
      | DayAbbrMonth \<Rightarrow>
          (case string_match dMon dMon_groups s of
             None \<Rightarrow> None
           | Some m \<Rightarrow>
               (let day = parseInt10 (grp m 1);
                    monAbbr = toLowerCase (grp m 2)
                in case map_of month_map monAbbr of
                     None \<Rightarrow> None
                   | Some month \<Rightarrow>
                       if month \<noteq> 0
                       then Some (new_Date_number (Date_UTC 2025 (month - 1) day))
                       else None)))"

definition spec_parse :: "engine \<Rightarrow> string option \<Rightarrow> JSDate option" where
  "spec_parse E raw =
     (case raw of
        None \<Rightarrow> None
      | Some s \<Rightarrow>
          if s = [] then None
          else (case find (\<lambda>f. spec_matches f s) format_order of
                  Some f \<Rightarrow> branch_result E f s
                | None \<Rightarrow> generic_fallback E s))"

section \<open>Matches of the patterns\<close>

lemma attempt_append:
  "length a = n \<Longrightarrow>
   attempt k c (a @ b) n = (if list_all (in_class c) a then map_option ((#) a) (k b) else None)"
  by (simp add: attempt_def)

lemma attempt_Some_iff:
  "attempt k c s n = Some r \<longleftrightarrow>
   (\<exists>a b r'. s = a @ b \<and> length a = n \<and> list_all (in_class c) a \<and> k b = Some r' \<and> r = a # r')"
proof
  assume a: "attempt k c s n = Some r"
  then have n: "n \<le> length s" and cl: "list_all (in_class c) (take n s)"
    and k: "map_option ((#) (take n s)) (k (drop n s)) = Some r"
    by (auto simp: attempt_def split: if_splits)
  from k obtain r' where "k (drop n s) = Some r'" "r = take n s # r'" by auto
  with n cl show "\<exists>a b r'. s = a @ b \<and> length a = n \<and> list_all (in_class c) a \<and> k b = Some r' \<and> r = a # r'"
    by (intro exI [of _ "take n s"] exI [of _ "drop n s"] exI [of _ r']) simp
next
  assume "\<exists>a b r'. s = a @ b \<and> length a = n \<and> list_all (in_class c) a \<and> k b = Some r' \<and> r = a # r'"
  then show "attempt k c s n = Some r"
    by (auto simp: attempt_append)
qed

lemma regex_match_digits:
  "regex_match (Rep Digit n n # as) s = Some r \<longleftrightarrow>
   (\<exists>a b r'. digits n a \<and> s = a @ b \<and> regex_match as b = Some r' \<and> r = a # r')"
  by (auto simp: attempt_Some_iff digits_def list_all_iff)

lemma regex_match_lit:
  "regex_match (Ch x # as) s = Some r \<longleftrightarrow>
   (\<exists>b r'. s = x # b \<and> regex_match as b = Some r' \<and> r = [x] # r')"
proof -
  have one: "\<And>a. length a = Suc 0 \<and> list_all (in_class (Lit x)) a \<longleftrightarrow> a = [x]"
    subgoal for a by (cases a) auto
    done
  show ?thesis
    apply (simp add: attempt_Some_iff)
    apply (rule iffI)
     apply (metis one append_Cons append_Nil)
    apply (metis one append_Cons append_Nil)
    done
qed

lemma regex_match_Nil: "regex_match [] s = Some r \<longleftrightarrow> s = [] \<and> r = []"
  by auto

lemma iso_match_iff:
  "regex_match iso s = Some segs \<longleftrightarrow>
   (\<exists>y m d. digits 4 y \<and> digits 2 m \<and> digits 2 d \<and> s = y @ ''-'' @ m @ ''-'' @ d
     \<and> segs = [y, ''-'', m, ''-'', d])"
  unfolding iso_def regex_match_digits regex_match_lit regex_match_Nil
  by auto

lemma in_class_Digit: "in_class Digit = is_digit"
  by (rule ext) simp

lemma in_class_WordChar: "in_class WordChar = is_word_char"
  by (rule ext) simp

lemma digits_1_iff: "digits (Suc 0) x \<longleftrightarrow> (\<exists>a. x = [a] \<and> is_digit a)"
  by (cases x) (auto simp: digits_def)

lemma digits_2_iff: "digits 2 x \<longleftrightarrow> (\<exists>a b. x = [a, b] \<and> is_digit a \<and> is_digit b)"
proof -
  have "length x = 2 \<longleftrightarrow> (\<exists>a b. x = [a, b])"
    by (cases x; cases "tl x") auto
  then show ?thesis unfolding digits_def by auto
qed

lemma digits_4_iff:
  "digits 4 x \<longleftrightarrow>
   (\<exists>a b c d. x = [a, b, c, d] \<and> is_digit a \<and> is_digit b \<and> is_digit c \<and> is_digit d)"
proof -
  have "length x = 4 \<longleftrightarrow> (\<exists>a b c d. x = [a, b, c, d])"
    by (auto simp: length_Suc_conv eval_nat_numeral)
  then show ?thesis unfolding digits_def by auto
qed

lemma word_chars_3_iff:
  "word_chars 3 x \<longleftrightarrow>
   (\<exists>a b c. x = [a, b, c] \<and> is_word_char a \<and> is_word_char b \<and> is_word_char c)"
proof -
  have "length x = 3 \<longleftrightarrow> (\<exists>a b c. x = [a, b, c])"
    by (auto simp: length_Suc_conv eval_nat_numeral)
  then show ?thesis unfolding word_chars_def by auto
qed

lemma ymdSlash_match_iff:
  "regex_match ymdSlash s = Some segs \<longleftrightarrow>
   (\<exists>y m d. digits 4 y \<and> digits 2 m \<and> digits 2 d \<and> s = y @ ''/'' @ m @ ''/'' @ d
     \<and> segs = [y, ''/'', m, ''/'', d])"
  unfolding ymdSlash_def regex_match_digits regex_match_lit regex_match_Nil
  by auto

lemma dmySlash_match_iff:
  "regex_match dmySlash s = Some segs \<longleftrightarrow>
   (\<exists>d m y. digits 2 d \<and> digits 2 m \<and> digits 4 y \<and> s = d @ ''/'' @ m @ ''/'' @ y
     \<and> segs = [d, ''/'', m, ''/'', y])"
  unfolding dmySlash_def regex_match_digits regex_match_lit regex_match_Nil
  by auto

lemma regex_match_words:
  "regex_match (Rep WordChar n n # as) s = Some r \<longleftrightarrow>
   (\<exists>a b r'. word_chars n a \<and> s = a @ b \<and> regex_match as b = Some r' \<and> r = a # r')"
  by (auto simp: attempt_Some_iff word_chars_def list_all_iff)

lemma is_digit_not_dash [simp]: "is_digit c \<Longrightarrow> c \<noteq> CHR ''-''"
  by (auto simp: is_digit_def)

lemma is_digit_not_slash [simp]: "is_digit c \<Longrightarrow> c \<noteq> CHR ''/''"
  by (auto simp: is_digit_def)

lemma dMon_match_iff:
  "regex_match dMon s = Some segs \<longleftrightarrow>
   (\<exists>d w. (digits 1 d \<or> digits 2 d) \<and> word_chars 3 w \<and> s = d @ ''-'' @ w
     \<and> segs = [d, ''-'', w])"
proof -
  let ?k = "regex_match [Ch CHR ''-'', Rep WordChar 3 3]"
  have k: "\<And>t r. ?k t = Some r \<longleftrightarrow> (\<exists>w. word_chars 3 w \<and> t = ''-'' @ w \<and> r = [''-'', w])"
    unfolding regex_match_lit regex_match_words regex_match_Nil by auto
  have m: "regex_match dMon s =
      (case attempt ?k Digit s 2 of Some r \<Rightarrow> Some r | None \<Rightarrow> attempt ?k Digit s 1)"
    by (simp add: dMon_def numeral_2_eq_2 split: option.split)
  have two: "\<And>r. attempt ?k Digit s 2 = Some r \<longleftrightarrow>
      (\<exists>d w. digits 2 d \<and> word_chars 3 w \<and> s = d @ ''-'' @ w \<and> r = [d, ''-'', w])"
    unfolding attempt_Some_iff k by (auto simp: digits_def in_class_Digit)
  have one: "\<And>r. attempt ?k Digit s 1 = Some r \<longleftrightarrow>
      (\<exists>d w. digits 1 d \<and> word_chars 3 w \<and> s = d @ ''-'' @ w \<and> r = [d, ''-'', w])"
    unfolding attempt_Some_iff k by (auto simp: digits_def in_class_Digit)
  have excl: "attempt ?k Digit s 2 = None" if "attempt ?k Digit s 1 = Some r" for r
  proof (cases "attempt ?k Digit s 2")
    case None then show ?thesis .
  next
    case (Some r2)
    from that obtain d w where d: "digits 1 d" and s: "s = d @ ''-'' @ w"
      unfolding one by blast
    from Some obtain d' w' where d': "digits 2 d'" and s': "s = d' @ ''-'' @ w'"
      unfolding two by blast
    from d d' s s' show ?thesis
      by (auto simp: digits_1_iff digits_2_iff)
  qed
  have "regex_match dMon s = Some segs \<longleftrightarrow>
      attempt ?k Digit s 2 = Some segs \<or> attempt ?k Digit s 1 = Some segs"
    unfolding m using excl by (cases "attempt ?k Digit s 2") auto
  also have "\<dots> \<longleftrightarrow> (\<exists>d w. (digits 1 d \<or> digits 2 d) \<and> word_chars 3 w \<and> s = d @ ''-'' @ w
     \<and> segs = [d, ''-'', w])"
    unfolding two one by blast
  finally show ?thesis .
qed

lemma digit_value_bounds: "is_digit c \<Longrightarrow> 0 \<le> digit_value c \<and> digit_value c \<le> 9"
  by (auto simp: is_digit_def digit_value_def)

lemma decimal_1: "decimal [a] = digit_value a"
  by (simp add: decimal_def)
lemma decimal_2: "decimal [a, b] = 10 * digit_value a + digit_value b"
  by (simp add: decimal_def)
lemma decimal_4: "decimal [a, b, c, d] = 1000 * digit_value a + 100 * digit_value b + 10 * digit_value c + digit_value d"
  by (simp add: decimal_def)

lemma parseInt10_digits:
  assumes "list_all is_digit ds" "ds \<noteq> []"
  shows "parseInt10 ds = Some (decimal ds)"
proof -
  obtain c r where ds: "ds = c # r" using assms(2) by (cases ds) auto
  with assms(1) have c: "is_digit c" by simp
  then have ns: "\<not> is_space c" and nm: "c \<noteq> CHR ''-''" and np: "c \<noteq> CHR ''+''"
    by (auto simp: is_digit_def is_space_def)
  have tw: "takeWhile is_digit ds = ds"
    using assms(1) by (simp add: list_all_iff)
  show ?thesis
    using ns nm np tw assms(2) unfolding parseInt10_def ds by (simp add: Let_def)
qed

lemma Date_parse_utc_midnight:
  assumes "digits 4 y" "digits 2 m" "digits 2 d"
  shows "Date_parse E (y @ ''-'' @ m @ ''-'' @ d @ ''T00:00:00Z'') =
         date_value E (decimal y) (decimal m) (decimal d)"
proof -
  have "regex_match (Rep Digit 4 4 # utc_midnight) (y @ ''-'' @ m @ ''-'' @ d @ ''T00:00:00Z'')
        = Some ([y, ''-'', m, ''-'', d] @ map (\<lambda>c. [c]) ''T00:00:00Z'')"
    using assms
    by (simp add: utc_midnight_def digits_def attempt_append in_class_Digit attempt_def [where c = "Lit x" for x])
  then show ?thesis
    by (simp add: Date_parse_def grp_def)
qed

section \<open>The three numeric formats\<close>

lemma regex_test_iff: "regex_test p s \<longleftrightarrow> (\<exists>segs. regex_match p s = Some segs)"
  by (simp add: regex_test_def)

lemma iso_test_iff:
  "regex_test iso s \<longleftrightarrow>
   (\<exists>y m d. digits 4 y \<and> digits 2 m \<and> digits 2 d \<and> s = y @ ''-'' @ m @ ''-'' @ d)"
  unfolding regex_test_iff iso_match_iff by blast

lemma ymdSlash_test_iff:
  "regex_test ymdSlash s \<longleftrightarrow>
   (\<exists>y m d. digits 4 y \<and> digits 2 m \<and> digits 2 d \<and> s = y @ ''/'' @ m @ ''/'' @ d)"
  unfolding regex_test_iff ymdSlash_match_iff by blast

lemma dmySlash_test_iff:
  "regex_test dmySlash s \<longleftrightarrow>
   (\<exists>d m y. digits 2 d \<and> digits 2 m \<and> digits 4 y \<and> s = d @ ''/'' @ m @ ''/'' @ y)"
  unfolding regex_test_iff dmySlash_match_iff by blast

lemma iso_test_facts:
  "regex_test iso s \<Longrightarrow> length s = 10 \<and> is_digit (s ! 2) \<and> s ! 4 = CHR ''-''"
  unfolding iso_test_iff by (auto simp: digits_2_iff digits_4_iff)

lemma ymdSlash_test_facts:
  "regex_test ymdSlash s \<Longrightarrow> length s = 10 \<and> is_digit (s ! 2) \<and> s ! 4 = CHR ''/''"
  unfolding ymdSlash_test_iff by (auto simp: digits_2_iff digits_4_iff)

lemma dmySlash_test_facts:
  "regex_test dmySlash s \<Longrightarrow> length s = 10 \<and> s ! 2 = CHR ''/''"
  unfolding dmySlash_test_iff by (auto simp: digits_2_iff digits_4_iff)

lemma dMon_match_length:
  "regex_match dMon s = Some segs \<Longrightarrow> length s = 5 \<or> length s = 6"
  unfolding dMon_match_iff by (auto simp: digits_def word_chars_def)

text \<open>No string matches two of the four patterns.\<close>

lemma iso_not_ymdSlash: "regex_test iso s \<Longrightarrow> \<not> regex_test ymdSlash s"
  using iso_test_facts [of s] ymdSlash_test_facts [of s] by auto

lemma iso_not_dmySlash: "regex_test iso s \<Longrightarrow> \<not> regex_test dmySlash s"
  using iso_test_facts [of s] dmySlash_test_facts [of s] by auto

lemma ymdSlash_not_dmySlash: "regex_test ymdSlash s \<Longrightarrow> \<not> regex_test dmySlash s"
  using ymdSlash_test_facts [of s] dmySlash_test_facts [of s] by auto

lemma dMon_not_others:
  assumes "regex_match dMon s = Some segs"
  shows "\<not> regex_test iso s \<and> \<not> regex_test ymdSlash s \<and> \<not> regex_test dmySlash s"
  using dMon_match_length [OF assms] iso_test_facts [of s] ymdSlash_test_facts [of s]
    dmySlash_test_facts [of s] by auto

lemma clip_TimeClip [simp]: "clip (TimeClip t) = TimeClip t"
  by (simp add: clip_def TimeClip_def)

lemma clip_None [simp]: "clip None = None"
  by (simp add: clip_def)

lemma replace_all_digits: "list_all is_digit x \<Longrightarrow> replace_all CHR ''/'' r x = x"
  by (induction x) (auto simp: replace_all_def)

lemma replace_all_append: "replace_all c r (a @ b) = replace_all c r a @ replace_all c r b"
  by (simp add: replace_all_def)

lemma replace_all_Cons: "replace_all c r (x # b) = (if x = c then r else [x]) @ replace_all c r b"
  by (simp add: replace_all_def)

lemma split_on_plain: "sep \<notin> set a \<Longrightarrow> split_on sep a = [a]"
  by (induction a) auto

lemma split_on_append:
  "sep \<notin> set a \<Longrightarrow> split_on sep (a @ sep # rest) = a # split_on sep rest"
  by (induction a) auto

lemma digits_no_slash: "list_all is_digit x \<Longrightarrow> CHR ''/'' \<notin> set x"
  by (induction x) (auto simp: is_digit_def)

lemma parse_iso_shape:
  assumes "digits 4 y" "digits 2 m" "digits 2 d"
  shows "parseDateAssume2025 E (Some (y @ ''-'' @ m @ ''-'' @ d)) =
         Some (Date (clip (date_value E (decimal y) (decimal m) (decimal d))))"
proof -
  let ?s = "y @ ''-'' @ m @ ''-'' @ d"
  have t: "regex_test iso ?s" unfolding iso_test_iff using assms by blast
  have "parseDateAssume2025 E (Some ?s) = Some (new_Date_string E (?s @ ''T00:00:00Z''))"
    using t by (simp add: parseDateAssume2025_def)
  also have "new_Date_string E (?s @ ''T00:00:00Z'') =
      Date (clip (date_value E (decimal y) (decimal m) (decimal d)))"
    using Date_parse_utc_midnight [OF assms, of E] by (simp add: new_Date_string_def)
  finally show ?thesis .
qed

lemma parse_ymdSlash_shape:
  assumes "digits 4 y" "digits 2 m" "digits 2 d"
  shows "parseDateAssume2025 E (Some (y @ ''/'' @ m @ ''/'' @ d)) =
         Some (Date (clip (date_value E (decimal y) (decimal m) (decimal d))))"
proof -
  let ?s = "y @ ''/'' @ m @ ''/'' @ d"
  have t: "regex_test ymdSlash ?s" unfolding ymdSlash_test_iff using assms by blast
  have n: "\<not> regex_test iso ?s" using t iso_not_ymdSlash by blast
  have r: "replace_all CHR ''/'' ''-'' ?s = y @ ''-'' @ m @ ''-'' @ d"
    using assms by (simp add: replace_all_append replace_all_Cons replace_all_digits digits_def)
  have "parseDateAssume2025 E (Some ?s) =
      Some (new_Date_string E (replace_all CHR ''/'' ''-'' ?s @ ''T00:00:00Z''))"
    using t n by (simp add: parseDateAssume2025_def)
  also have "new_Date_string E (replace_all CHR ''/'' ''-'' ?s @ ''T00:00:00Z'') =
      Date (clip (date_value E (decimal y) (decimal m) (decimal d)))"
    unfolding r using Date_parse_utc_midnight [OF assms, of E] by (simp add: new_Date_string_def)
  finally show ?thesis .
qed

lemma parse_dmySlash_shape:
  assumes "digits 2 d" "digits 2 m" "digits 4 y"
  shows "parseDateAssume2025 E (Some (d @ ''/'' @ m @ ''/'' @ y)) =
         Some (Date (clip (date_value E (decimal y) (decimal m) (decimal d))))"
proof -
  let ?s = "d @ ''/'' @ m @ ''/'' @ y"
  have t: "regex_test dmySlash ?s" unfolding dmySlash_test_iff using assms by blast
  have n1: "\<not> regex_test iso ?s" using t iso_not_dmySlash by blast
  have n2: "\<not> regex_test ymdSlash ?s" using t ymdSlash_not_dmySlash by blast
  have sp: "split_on CHR ''/'' ?s = [d, m, y]"
    using assms by (simp add: split_on_append split_on_plain digits_no_slash digits_def)
  have "parseDateAssume2025 E (Some ?s) =
      Some (new_Date_string E (y @ ''-'' @ m @ ''-'' @ d @ ''T00:00:00Z''))"
    using t n1 n2 sp by (simp add: parseDateAssume2025_def elem_def Let_def)
  also have "new_Date_string E (y @ ''-'' @ m @ ''-'' @ d @ ''T00:00:00Z'') =
      Date (clip (date_value E (decimal y) (decimal m) (decimal d)))"
    using Date_parse_utc_midnight [OF assms(3,2,1), of E] by (simp add: new_Date_string_def)
  finally show ?thesis .
qed

section \<open>Calendar arithmetic\<close>

lemma year_search_correct:
  "d < DayFromYear (y + 1) \<Longrightarrow>
   DayFromYear (year_search y d) \<le> d \<and> d < DayFromYear (year_search y d + 1)"
proof (induction y d rule: year_search.induct)
  case (1 y d)
  show ?case
  proof (cases "DayFromYear y \<le> d")
    case True
    then show ?thesis using 1 by (simp add: year_search.simps)
  next
    case False
    then have "d < DayFromYear (y - 1 + 1)" by simp
    with 1 False show ?thesis by (simp add: year_search.simps [of y d])
  qed
qed

lemma DayFromYear_lower: "DayFromYear y + 365 * int n \<le> DayFromYear (y + int n)"
proof (induction n)
  case 0 then show ?case by simp
next
  case (Suc n)
  have "DayFromYear (y + int (Suc n)) = DayFromYear (y + int n) + DaysInYear (y + int n)"
    using DayFromYear_step [of "y + int n"] by (simp add: add.assoc add.commute [of 1])
  then show ?case using Suc DaysInYear_cases [of "y + int n"] by auto
qed

lemma DayFromYear_upper: "DayFromYear (y + int n) \<le> DayFromYear y + 366 * int n"
proof (induction n)
  case 0 then show ?case by simp
next
  case (Suc n)
  have "DayFromYear (y + int (Suc n)) = DayFromYear (y + int n) + DaysInYear (y + int n)"
    using DayFromYear_step [of "y + int n"] by (simp add: add.assoc add.commute [of 1])
  then show ?case using Suc DaysInYear_cases [of "y + int n"] by auto
qed

lemma DayFromYear_mono: "y \<le> z \<Longrightarrow> DayFromYear y \<le> DayFromYear z"
  using DayFromYear_lower [of y "nat (z - y)"] by simp

lemma DayFromYear_1970 [simp]: "DayFromYear 1970 = 0"
  by (simp add: DayFromYear_def)

lemma year_estimate:
  "d < DayFromYear (1970 + (if 0 \<le> d then d div 365 else d div 366) + 1)"
proof (cases "0 \<le> d")
  case True
  define k where "k = d div 365"
  have k0: "0 \<le> k" using True by (simp add: k_def pos_imp_zdiv_nonneg_iff)
  have "d < 365 * (k + 1)"
    unfolding k_def using div_mult_mod_eq [of d 365] pos_mod_bound [of 365 d] by simp
  moreover have "365 * (k + 1) \<le> DayFromYear (1970 + (k + 1))"
    using DayFromYear_lower [of 1970 "nat (k + 1)"] k0 by simp
  ultimately show ?thesis using True by (simp add: k_def add.assoc)
next
  case False
  define k where "k = d div 366"
  have k0: "k < 0" using False by (simp add: k_def div_neg_pos_less0)
  have "d < 366 * (k + 1)"
    unfolding k_def using div_mult_mod_eq [of d 366] pos_mod_bound [of 366 d] by simp
  moreover have "DayFromYear 1970 \<le> DayFromYear (1970 + (k + 1)) + 366 * int (nat (- (k + 1)))"
    using DayFromYear_upper [of "1970 + (k + 1)" "nat (- (k + 1))"] k0 by simp
  ultimately show ?thesis using False k0 by (simp add: k_def add.assoc)
qed

lemma YearFromDay_correct:
  "DayFromYear (YearFromDay d) \<le> d \<and> d < DayFromYear (YearFromDay d + 1)"
  unfolding YearFromDay_def by (rule year_search_correct) (rule year_estimate)

lemma YearFromDay_unique:
  assumes "DayFromYear y \<le> d" "d < DayFromYear (y + 1)"
  shows "YearFromDay d = y"
proof (rule ccontr)
  let ?r = "YearFromDay d"
  assume ne: "?r \<noteq> y"
  have r: "DayFromYear ?r \<le> d" "d < DayFromYear (?r + 1)"
    using YearFromDay_correct [of d] by simp_all
  show False
  proof (cases "?r < y")
    case True
    then have "DayFromYear (?r + 1) \<le> DayFromYear y" by (intro DayFromYear_mono) simp
    with r assms show False by simp
  next
    case False
    with ne have "y + 1 \<le> ?r" by simp
    then have "DayFromYear (y + 1) \<le> DayFromYear ?r" by (rule DayFromYear_mono)
    with r assms show False by simp
  qed
qed

lemma Day_MakeDate: "0 \<le> tm \<Longrightarrow> tm < msPerDay \<Longrightarrow> Day (MakeDate dy tm) = dy"
  by (simp add: Day_def MakeDate_def msPerDay_def div_pos_pos_trivial)

lemma MakeTime_zero [simp]: "MakeTime 0 0 0 0 = 0"
  by (simp add: MakeTime_def)

lemma MakeDay_in_year:
  "0 \<le> m \<Longrightarrow> m \<le> 11 \<Longrightarrow>
   MakeDay y m d = DayFromYear y + month_start m (if DaysInYear y = 366 then 1 else 0) + d - 1"
  by (simp add: MakeDay_def div_pos_pos_trivial mod_pos_pos_trivial)

lemma month_cases:
  "1 \<le> m \<Longrightarrow> m \<le> (12::int) \<Longrightarrow>
   m = 1 \<or> m = 2 \<or> m = 3 \<or> m = 4 \<or> m = 5 \<or> m = 6 \<or> m = 7 \<or> m = 8 \<or> m = 9 \<or> m = 10
   \<or> m = 11 \<or> m = 12"
  by arith

lemma MonthFromTime_range: "0 \<le> MonthFromTime t \<and> MonthFromTime t \<le> 11"
  by (simp add: MonthFromTime_def Let_def)

text \<open>
  Reading a calendar date back: the time value built from a year, a month and a day
  that the month has shows that year, month and day in UTC.
\<close>

lemma calendar_roundtrip:
  assumes m: "1 \<le> m" "m \<le> 12" and d: "1 \<le> d" "d \<le> days_in_month y m"
  defines "t \<equiv> MakeDate (MakeDay y (m - 1) d) (MakeTime 0 0 0 0)"
  shows "YearFromTime t = y \<and> MonthFromTime t = m - 1 \<and> DateFromTime t = d"
proof -
  define l :: int where "l = (if DaysInYear y = 366 then 1 else 0)"
  have diy: "DaysInYear y = 365 + l"
    using DaysInYear_cases [of y] by (auto simp: l_def)
  have l01: "l = 0 \<or> l = 1" by (simp add: l_def)
  define w where "w = month_start (m - 1) l + d - 1"
  have day: "Day t = DayFromYear y + w"
    using m by (simp add: t_def Day_MakeDate msPerDay_def MakeDay_in_year l_def w_def)
  have dim: "days_in_month y m = (if m = 2 then 28 + l
      else if m = 4 \<or> m = 6 \<or> m = 9 \<or> m = 11 then 30 else 31)"
    by (simp add: days_in_month_def l_def)
  have w: "0 \<le> w \<and> w < 365 + l"
    using month_cases [OF m] d l01 unfolding w_def dim
    by (elim disjE; simp add: month_start_def)
  have yr: "YearFromTime t = y"
    unfolding YearFromTime_def
    by (rule YearFromDay_unique) (use day w diy DayFromYear_step [of y] in auto)
  have leap: "InLeapYear t = l"
    by (simp add: InLeapYear_def yr l_def)
  have dwy: "DayWithinYear t = w"
    by (simp add: DayWithinYear_def yr day)
  have mon: "MonthFromTime t = m - 1"
    using month_cases [OF m] d l01 unfolding MonthFromTime_def dwy leap w_def dim
    by (elim disjE; simp add: month_start_def Let_def)
  have "DateFromTime t = d"
    by (simp add: DateFromTime_def dwy leap mon w_def)
  with yr mon show ?thesis by simp
qed

text \<open>Setting the day of the month to itself plus \<open>k\<close> moves the time value by \<open>k\<close> days.\<close>

lemma MakeDay_shift:
  "MakeDay (YearFromTime t) (MonthFromTime t) (DateFromTime t + k) = Day t + k"
  using MonthFromTime_range [of t]
  by (simp add: MakeDay_in_year DateFromTime_def InLeapYear_def DayWithinYear_def)

lemma MakeDate_Day: "MakeDate (Day t + k) (TimeWithinDay t) = t + k * msPerDay"
  by (simp add: MakeDate_def Day_def TimeWithinDay_def algebra_simps)

lemma setUTCDate_plus:
  "setUTCDate (Date (Some t)) (map_option (\<lambda>n. n + k) (getUTCDate (Date (Some t)))) =
   Date (TimeClip (t + k * msPerDay))"
  by (simp add: setUTCDate_def getUTCDate_def MakeDay_shift MakeDate_Day)

lemma decimal_digits_2: "digits 2 x \<Longrightarrow> 0 \<le> decimal x \<and> decimal x \<le> 99"
proof -
  assume "digits 2 x"
  then obtain a b where x: "x = [a, b]" and "is_digit a" "is_digit b"
    unfolding digits_2_iff by blast
  then show ?thesis
    using digit_value_bounds [of a] digit_value_bounds [of b] by (simp add: decimal_2)
qed

lemma decimal_digits_1: "digits (Suc 0) x \<Longrightarrow> 0 \<le> decimal x \<and> decimal x \<le> 9"
proof -
  assume "digits (Suc 0) x"
  then obtain a where x: "x = [a]" and "is_digit a"
    unfolding digits_1_iff by blast
  then show ?thesis
    using digit_value_bounds [of a] by (simp add: decimal_1)
qed

lemma decimal_digits_4: "digits 4 x \<Longrightarrow> 0 \<le> decimal x \<and> decimal x \<le> 9999"
proof -
  assume "digits 4 x"
  then obtain a b c d where x: "x = [a, b, c, d]"
    and "is_digit a" "is_digit b" "is_digit c" "is_digit d"
    unfolding digits_4_iff by blast
  then show ?thesis
    using digit_value_bounds [of a] digit_value_bounds [of b] digit_value_bounds [of c]
      digit_value_bounds [of d]
    by (simp add: decimal_4)
qed

lemma DayFromYear_0: "DayFromYear 0 = - 719528"
  by (simp add: DayFromYear_def)

lemma DayFromYear_9999: "DayFromYear 9999 = 2932532"
  by (simp add: DayFromYear_def)

lemma month_start_bounds: "0 \<le> l \<Longrightarrow> l \<le> 1 \<Longrightarrow> 0 \<le> month_start m l \<and> month_start m l \<le> 335"
  by (simp add: month_start_def)

lemma four_digit_year_in_range:
  assumes y: "0 \<le> y" "y \<le> 9999" and m: "1 \<le> m" "m \<le> 12" and d: "1 \<le> d" "d \<le> 31"
  shows "TimeClip (MakeDate (MakeDay y (m - 1) d) (MakeTime 0 0 0 0)) =
         Some (MakeDate (MakeDay y (m - 1) d) (MakeTime 0 0 0 0))"
proof -
  define l :: int where "l = (if DaysInYear y = 366 then 1 else 0)"
  have md: "MakeDay y (m - 1) d = DayFromYear y + month_start (m - 1) l + d - 1"
    using m by (simp add: MakeDay_in_year l_def)
  have "DayFromYear 0 \<le> DayFromYear y" "DayFromYear y \<le> DayFromYear 9999"
    using y by (auto intro: DayFromYear_mono)
  moreover have "0 \<le> month_start (m - 1) l \<and> month_start (m - 1) l \<le> 335"
    by (rule month_start_bounds) (simp_all add: l_def)
  ultimately have "- 719528 \<le> MakeDay y (m - 1) d \<and> MakeDay y (m - 1) d \<le> 2932900"
    using d unfolding md DayFromYear_0 DayFromYear_9999 by simp
  then show ?thesis
    by (simp add: TimeClip_def MakeDate_def msPerDay_def maxTime_def abs_le_iff not_less)
qed

lemma days_in_month_le_31: "days_in_month y m \<le> 31"
  by (simp add: days_in_month_def)

lemma clip_date_value:
  assumes "digits 4 y" "digits 2 m" "digits 2 d"
  shows "clip (date_value E (decimal y) (decimal m) (decimal d)) =
         date_value E (decimal y) (decimal m) (decimal d)"
proof (cases "date_value E (decimal y) (decimal m) (decimal d)")
  case None
  then show ?thesis by simp
next
  case (Some t)
  then have c: "1 \<le> decimal m" "decimal m \<le> 12" "1 \<le> decimal d" "decimal d \<le> 31"
    and t: "t = MakeDate (MakeDay (decimal y) (decimal m - 1) (decimal d)) (MakeTime 0 0 0 0)"
    using days_in_month_le_31 [of "decimal y" "decimal m"]
    by (auto simp: date_value_def split: if_splits)
  show ?thesis
    unfolding Some t using four_digit_year_in_range [OF _ _ c] decimal_digits_4 [OF assms(1)]
    by (simp add: clip_def)
qed

section \<open>The day-month format and the fallback\<close>

lemma month_map_range: "map_of month_map k = Some month \<Longrightarrow> 1 \<le> month \<and> month \<le> 12"
  by (auto simp: month_map_def split: if_splits)

lemma digits_nonempty: "digits (Suc 0) d \<or> digits 2 d \<Longrightarrow> d \<noteq> [] \<and> list_all is_digit d"
  by (auto simp: digits_def)

lemma string_match_dMon:
  assumes "digits 1 d \<or> digits 2 d" "word_chars 3 w"
  shows "string_match dMon dMon_groups (d @ ''-'' @ w) = Some [d @ ''-'' @ w, d, w]"
proof -
  have "regex_match dMon (d @ ''-'' @ w) = Some [d, ''-'', w]"
    unfolding dMon_match_iff using assms by blast
  then show ?thesis
    by (simp add: string_match_def dMon_groups_def grp_def)
qed

lemma parse_dMon_shape:
  assumes d: "digits 1 d \<or> digits 2 d" and w: "word_chars 3 w"
    and tab: "map_of month_map (toLowerCase w) = Some month"
  shows "parseDateAssume2025 E (Some (d @ ''-'' @ w)) =
         Some (Date (Date_UTC 2025 (month - 1) (Some (decimal d))))"
proof -
  let ?s = "d @ ''-'' @ w"
  have rm: "regex_match dMon ?s = Some [d, ''-'', w]"
    unfolding dMon_match_iff using d w by blast
  have no: "\<not> regex_test iso ?s" "\<not> regex_test ymdSlash ?s" "\<not> regex_test dmySlash ?s"
    using dMon_not_others [OF rm] by simp_all
  have pi: "parseInt10 d = Some (decimal d)"
    using digits_nonempty d by (intro parseInt10_digits) auto
  have m0: "month \<noteq> 0" using month_map_range [OF tab] by simp
  have dut: "clip (Date_UTC 2025 (month - 1) (Some (decimal d))) = Date_UTC 2025 (month - 1) (Some (decimal d))"
    by (simp add: Date_UTC_def)
  show ?thesis
    using no m0 string_match_dMon [OF d w] pi tab dut
    by (simp add: parseDateAssume2025_def grp_def new_Date_number_def)
qed

lemma parse_dMon_unknown:
  assumes d: "digits 1 d \<or> digits 2 d" and w: "word_chars 3 w"
    and tab: "map_of month_map (toLowerCase w) = None"
  shows "parseDateAssume2025 E (Some (d @ ''-'' @ w)) = generic_fallback E (d @ ''-'' @ w)"
proof -
  let ?s = "d @ ''-'' @ w"
  have rm: "regex_match dMon ?s = Some [d, ''-'', w]"
    unfolding dMon_match_iff using d w by blast
  have no: "\<not> regex_test iso ?s" "\<not> regex_test ymdSlash ?s" "\<not> regex_test dmySlash ?s"
    using dMon_not_others [OF rm] by simp_all
  show ?thesis
    using no string_match_dMon [OF d w] tab
    by (simp add: parseDateAssume2025_def grp_def generic_fallback_def)
qed

lemma parse_no_match:
  assumes "s \<noteq> []" "\<not> regex_test iso s" "\<not> regex_test ymdSlash s" "\<not> regex_test dmySlash s"
    and "regex_match dMon s = None"
  shows "parseDateAssume2025 E (Some s) = generic_fallback E s"
  using assms by (simp add: parseDateAssume2025_def string_match_def generic_fallback_def)

section \<open>Evaluation at the examples of the specification\<close>

lemma utc_ymd_date_value:
  assumes "date_value E y m d = Some t" "d \<le> days_in_month y m"
  shows "utc_ymd (Date (Some t)) = Some (y, m, d)"
proof -
  from assms(1) have c: "1 \<le> m" "m \<le> 12" "1 \<le> d"
    and t: "t = MakeDate (MakeDay y (m - 1) d) (MakeTime 0 0 0 0)"
    by (auto simp: date_value_def split: if_splits)
  show ?thesis
    unfolding t using calendar_roundtrip [OF c assms(2)] by (simp add: utc_ymd_def)
qed

lemma date_value_valid:
  "1 \<le> m \<Longrightarrow> m \<le> 12 \<Longrightarrow> 1 \<le> d \<Longrightarrow> d \<le> days_in_month y m \<Longrightarrow>
   date_value E y m d = Some (MakeDate (MakeDay y (m - 1) d) (MakeTime 0 0 0 0))"
  using days_in_month_le_31 [of y m] by (simp add: date_value_def)

lemma eval_20250805: "date_value E 2025 8 5 = Some 1754352000000"
  by (simp add: date_value_def days_in_month_def DaysInYear_def MakeDay_def MakeDate_def
      DayFromYear_def month_start_def msPerDay_def)

lemma eval_digits:
  "digits 4 ''2025''" "digits 2 ''08''" "digits 2 ''05''" "digits 2 ''13''" "digits 2 ''01''"
  by (simp_all add: digits_def is_digit_def)

lemma eval_decimal:
  "decimal ''2025'' = 2025" "decimal ''08'' = 8" "decimal ''05'' = 5" "decimal ''13'' = 13"
  "decimal ''01'' = 1"
  by (simp_all add: decimal_def digit_value_def)

lemmas date_eval = date_value_def days_in_month_def DaysInYear_def MakeDay_def MakeDate_def
  DayFromYear_def month_start_def msPerDay_def MakeTime_def

lemmas string_eval = regex_test_def attempt_def is_digit_def is_word_char_def decimal_def
  digit_value_def digits_def

section \<open>Renewal dates\<close>

lemma clip_Some_range: "clip v = Some t \<Longrightarrow> \<bar>t\<bar> \<le> maxTime"
  by (auto simp: clip_def TimeClip_def split: option.splits if_splits)

lemma Date_UTC_range: "Date_UTC y m d = Some t \<Longrightarrow> \<bar>t\<bar> \<le> maxTime"
  by (auto simp: Date_UTC_def TimeClip_def Let_def split: option.splits if_splits)

lemma clip_in_range: "\<bar>t\<bar> \<le> maxTime \<Longrightarrow> clip (Some t) = Some t"
  by (simp add: clip_def TimeClip_def)

text \<open>Every time value that \<^verbatim>\<open>parseDateAssume2025\<close> returns is within the range of \<^verbatim>\<open>Date\<close>.\<close>

lemma parse_in_range:
  assumes "parseDateAssume2025 E x = Some (Date (Some t))"
  shows "\<bar>t\<bar> \<le> maxTime"
proof -
  have "(\<exists>v. clip v = Some t) \<or> (\<exists>y m d. clip (Date_UTC y m d) = Some t)"
    using assms
    by (auto simp: parseDateAssume2025_def new_Date_string_def new_Date_number_def Let_def
        split: option.splits if_splits)
  then show ?thesis
    using clip_Some_range by blast
qed

lemma renewal_derived:
  assumes "parseDateAssume2025 E existingRenewal = None"
    and "parseDateAssume2025 E charging = Some (Date (Some t))"
  shows "computeRenewalDate E charging existingRenewal =
         Some (Date (TimeClip (t + 30 * msPerDay)))"
  using assms clip_in_range [OF parse_in_range [OF assms(2)]] setUTCDate_plus [of t 30]
  by (simp add: computeRenewalDate_def new_Date_copy_def)

lemma Day_plus_days: "Day (t + k * msPerDay) = Day t + k"
  by (simp add: Day_def msPerDay_def)

lemma TimeWithinDay_plus_days: "TimeWithinDay (t + k * msPerDay) = TimeWithinDay t"
  by (simp add: TimeWithinDay_def msPerDay_def)

lemma parse_expanded_year:
  "parseDateAssume2025 E (Some ''+275760-09-13T00:00:00Z'') = Some (Date (Some 8640000000000000))"
proof -
  let ?s = "''+275760-09-13T00:00:00Z''"
  have n: "\<not> regex_test iso ?s" "\<not> regex_test ymdSlash ?s"
    "\<not> regex_test dmySlash ?s" "regex_match dMon ?s = None"
    by (simp_all add: iso_def ymdSlash_def dmySlash_def dMon_def string_eval)
  have p: "Date_parse E ?s = date_value E 275760 9 13"
    by (simp add: Date_parse_def utc_midnight_def string_eval grp_def)
  have v: "date_value E 275760 9 13 = Some 8640000000000000"
    by (simp add: date_eval)
  show ?thesis
    using parse_no_match [OF _ n, of E]
    by (simp add: generic_fallback_def new_Date_string_def p v clip_def TimeClip_def maxTime_def)
qed

lemma parse_expanded_year_early:
  "parseDateAssume2025 E (Some ''+275760-09-01T00:00:00Z'') = Some (Date (Some 8639998963200000))"
proof -
  let ?s = "''+275760-09-01T00:00:00Z''"
  have n: "\<not> regex_test iso ?s" "\<not> regex_test ymdSlash ?s"
    "\<not> regex_test dmySlash ?s" "regex_match dMon ?s = None"
    by (simp_all add: iso_def ymdSlash_def dmySlash_def dMon_def string_eval)
  have p: "Date_parse E ?s = date_value E 275760 9 1"
    by (simp add: Date_parse_def utc_midnight_def string_eval grp_def)
  have v: "date_value E 275760 9 1 = Some 8639998963200000"
    by (simp add: date_eval)
  show ?thesis
    using parse_no_match [OF _ n, of E]
    by (simp add: generic_fallback_def new_Date_string_def p v clip_def TimeClip_def maxTime_def)
qed

lemma utc_ymd_eval:
  assumes "1 \<le> m" "m \<le> 12" "1 \<le> d" "d \<le> days_in_month y m"
    and "t = MakeDate (MakeDay y (m - 1) d) (MakeTime 0 0 0 0)"
  shows "utc_ymd (Date (Some t)) = Some (y, m, d)"
  unfolding assms(5) using calendar_roundtrip [OF assms(1-4)] by (simp add: utc_ymd_def)

lemma parse_null: "parseDateAssume2025 E None = None"
  by (simp add: parseDateAssume2025_def)

lemma parse_20250805:
  "parseDateAssume2025 E (Some ''2025-08-05'') = Some (Date (Some 1754352000000))"
  using parse_iso_shape [of "''2025''" "''08''" "''05''" E]
  by (simp add: eval_digits eval_decimal eval_20250805 clip_def TimeClip_def maxTime_def)

lemma parse_20250101:
  "parseDateAssume2025 E (Some ''2025-01-01'') = Some (Date (Some 1735689600000))"
proof -
  have v: "date_value E 2025 1 1 = Some 1735689600000"
    by (simp add: date_eval)
  show ?thesis
    using parse_iso_shape [of "''2025''" "''01''" "''01''" E]
    by (simp add: eval_digits eval_decimal v clip_def TimeClip_def maxTime_def)
qed

lemma parse_20251215:
  "parseDateAssume2025 E (Some ''2025-12-15'') = Some (Date (Some 1765756800000))"
proof -
  have v: "date_value E 2025 12 15 = Some 1765756800000"
    by (simp add: date_eval)
  have d: "digits 2 ''12''" "digits 2 ''15''" "decimal ''12'' = 12" "decimal ''15'' = 15"
    by (simp_all add: string_eval)
  show ?thesis
    using parse_iso_shape [of "''2025''" "''12''" "''15''" E]
    by (simp add: eval_digits eval_decimal d v clip_def TimeClip_def maxTime_def)
qed

section \<open>Month names, and strings that match no pattern\<close>

lemma lower_char_letter:
  assumes "lower_char c \<in> set ''abcdefghijklmnopqrstuvwxyz''"
  shows "is_word_char c"
proof (cases "map_of (zip ''ABCDEFGHIJKLMNOPQRSTUVWXYZ'' ''abcdefghijklmnopqrstuvwxyz'') c")
  case None
  then have "lower_char c = c" by (simp add: lower_char_def)
  with assms show ?thesis by (auto simp: is_word_char_def)
next
  case (Some l)
  then have "c \<in> set ''ABCDEFGHIJKLMNOPQRSTUVWXYZ''"
    by (meson map_of_SomeD set_zip_leftD)
  then show ?thesis by (auto simp: is_word_char_def)
qed

lemma month_map_keys:
  "map_of month_map k = Some month \<Longrightarrow> set k \<subseteq> set ''abcdefghijklmnopqrstuvwxyz''"
  by (auto simp: month_map_def split: if_splits)

lemma table_word_chars:
  assumes "length w = 3" "map_of month_map (toLowerCase w) = Some month"
  shows "word_chars 3 w"
proof -
  have "lower_char c \<in> set ''abcdefghijklmnopqrstuvwxyz''" if "c \<in> set w" for c
    using month_map_keys [OF assms(2)] that by (auto simp: toLowerCase_def)
  then have "list_all is_word_char w"
    using lower_char_letter by (auto simp: list_all_iff)
  with assms(1) show ?thesis by (simp add: word_chars_def)
qed

lemma Date_UTC_2025:
  assumes "1 \<le> m" "m \<le> 12" "1 \<le> d" "d \<le> 31"
  shows "Date_UTC 2025 (m - 1) (Some d) = Some (MakeDate (MakeDay 2025 (m - 1) d) (MakeTime 0 0 0 0))"
  using four_digit_year_in_range [OF _ _ assms, of 2025] by (simp add: Date_UTC_def)

lemma eval_words: "word_chars 3 ''Aug''" "word_chars 3 ''AUG''" "word_chars 3 ''aug''"
  "toLowerCase ''Aug'' = ''aug''" "toLowerCase ''AUG'' = ''aug''" "toLowerCase ''aug'' = ''aug''"
  "map_of month_map ''aug'' = Some 8" "digits (Suc 0) ''5''" "decimal ''5'' = 5"
  by (simp_all add: word_chars_def is_word_char_def toLowerCase_def lower_char_def month_map_def
      string_eval)

lemma rep_try_SomeD:
  "rep_try k c s lo e = Some r \<Longrightarrow> \<exists>n. attempt k c s n = Some r"
  by (induction e) (auto split: option.splits)

text \<open>A character that none of the classes of a pattern contains occurs in no match.\<close>

lemma regex_match_excludes:
  assumes "list_all (\<lambda>a. case a of Rep cl lo hi \<Rightarrow> \<not> in_class cl c) p"
    and "regex_match p s = Some segs"
  shows "c \<notin> set s"
  using assms
proof (induction p arbitrary: s segs)
  case Nil
  then show ?case by (simp split: if_splits)
next
  case (Cons a p)
  obtain cl lo hi where a: "a = Rep cl lo hi" by (cases a)
  from Cons.prems(2) obtain n where "attempt (regex_match p) cl s n = Some segs"
    unfolding a using rep_try_SomeD by fastforce
  then obtain x t r' where s: "s = x @ t" and x: "list_all (in_class cl) x"
    and t: "regex_match p t = Some r'"
    unfolding attempt_Some_iff by blast
  have "c \<notin> set x" using x Cons.prems(1) by (auto simp: a list_all_iff)
  moreover have "c \<notin> set t" using Cons.IH [OF _ t] Cons.prems(1) by simp
  ultimately show ?case by (simp add: s)
qed

lemma iso_no_slash: "regex_test iso s \<Longrightarrow> CHR ''/'' \<notin> set s"
  unfolding regex_test_iff
  by (auto simp del: regex_match.simps simp: iso_def is_digit_def elim!: regex_match_excludes [rotated])

lemma dMon_no_slash: "regex_match dMon s = Some segs \<Longrightarrow> CHR ''/'' \<notin> set s"
  by (erule regex_match_excludes [rotated]) (simp add: dMon_def is_digit_def is_word_char_def)

lemma split_three:
  assumes "list_all is_digit a" "list_all is_digit b" "list_all is_digit c"
  shows "split_on CHR ''/'' (a @ ''/'' @ b @ ''/'' @ c) = [a, b, c]"
  using assms by (simp add: split_on_append split_on_plain digits_no_slash)

lemma Date_parse_native:
  assumes "CHR ''/'' \<in> set s"
  shows "Date_parse E s = native_parse E s"
proof -
  have a: "regex_match (Rep Digit 4 4 # utc_midnight) s = None"
  proof (cases "regex_match (Rep Digit 4 4 # utc_midnight) s")
    case (Some segs)
    have "CHR ''/'' \<notin> set s"
      by (rule regex_match_excludes [OF _ Some]) (simp add: utc_midnight_def is_digit_def)
    with assms show ?thesis by simp
  qed simp
  have b: "regex_match (Rep Sign 1 1 # Rep Digit 6 6 # utc_midnight) s = None"
  proof (cases "regex_match (Rep Sign 1 1 # Rep Digit 6 6 # utc_midnight) s")
    case (Some segs)
    have "CHR ''/'' \<notin> set s"
      by (rule regex_match_excludes [OF _ Some]) (simp add: utc_midnight_def is_digit_def)
    with assms show ?thesis by simp
  qed simp
  show ?thesis unfolding Date_parse_def a b by simp
qed

section \<open>The formats of the specification and the patterns of the source\<close>

lemma spec_numeric_iff:
  "spec_numeric sep n1 n2 n3 s \<longleftrightarrow>
   (\<exists>a b c. digits n1 a \<and> digits n2 b \<and> digits n3 c \<and> s = a @ [sep] @ b @ [sep] @ c)"
proof
  assume "spec_numeric sep n1 n2 n3 s"
  then show "\<exists>a b c. digits n1 a \<and> digits n2 b \<and> digits n3 c \<and> s = a @ [sep] @ b @ [sep] @ c"
    unfolding spec_numeric_def Let_def by blast
next
  assume "\<exists>a b c. digits n1 a \<and> digits n2 b \<and> digits n3 c \<and> s = a @ [sep] @ b @ [sep] @ c"
  then obtain a b c where f: "digits n1 a" "digits n2 b" "digits n3 c"
    and s: "s = a @ [sep] @ b @ [sep] @ c" by blast
  have "take n1 s = a" "take n2 (drop (n1 + 1) s) = b" "drop (n1 + n2 + 2) s = c"
    using f by (simp_all add: s digits_def)
  then show "spec_numeric sep n1 n2 n3 s"
    using f s by (simp add: spec_numeric_def)
qed

lemma spec_matches_ISO: "spec_matches ISO s \<longleftrightarrow> regex_test iso s"
  by (simp add: spec_matches_def spec_numeric_iff iso_test_iff)

lemma spec_matches_SlashYearFirst: "spec_matches SlashYearFirst s \<longleftrightarrow> regex_test ymdSlash s"
  by (simp add: spec_matches_def spec_numeric_iff ymdSlash_test_iff)

lemma spec_matches_SlashDayFirst: "spec_matches SlashDayFirst s \<longleftrightarrow> regex_test dmySlash s"
  by (simp add: spec_matches_def spec_numeric_iff dmySlash_test_iff)

lemma takeWhile_digits_dash:
  "list_all is_digit d \<Longrightarrow> takeWhile is_digit (d @ CHR ''-'' # w) = d"
  by (induction d) (auto simp: is_digit_def)

lemma spec_day_month_iff:
  "spec_day_month s \<longleftrightarrow>
   (\<exists>d w month. (digits 1 d \<or> digits 2 d) \<and> word_chars 3 w \<and> s = d @ ''-'' @ w \<and>
      map_of month_map (toLowerCase w) = Some month)"
proof
  assume "spec_day_month s"
  then obtain d w where l: "length d = 1 \<or> length d = 2" and d: "d = takeWhile is_digit s"
    and s: "s = d @ ''-'' @ w" and w: "length w = 3"
    and t: "map_of month_map (toLowerCase w) \<noteq> None"
    unfolding spec_day_month_def Let_def by blast
  from t obtain month where m: "map_of month_map (toLowerCase w) = Some month" by blast
  have "list_all is_digit d"
    unfolding d list_all_iff using set_takeWhileD by fastforce
  with l have "digits 1 d \<or> digits 2 d" by (auto simp: digits_def)
  then show "\<exists>d w month. (digits 1 d \<or> digits 2 d) \<and> word_chars 3 w \<and> s = d @ ''-'' @ w \<and>
      map_of month_map (toLowerCase w) = Some month"
    using table_word_chars [OF w m] s m by blast
next
  assume "\<exists>d w month. (digits 1 d \<or> digits 2 d) \<and> word_chars 3 w \<and> s = d @ ''-'' @ w \<and>
      map_of month_map (toLowerCase w) = Some month"
  then obtain d w month where d: "digits 1 d \<or> digits 2 d" and w: "word_chars 3 w"
    and s: "s = d @ ''-'' @ w" and m: "map_of month_map (toLowerCase w) = Some month"
    by blast
  have tw: "takeWhile is_digit s = d"
    unfolding s using d takeWhile_digits_dash [of d w] by (auto simp: digits_def)
  have "drop (length d + 1) s = w" by (simp add: s)
  then show "spec_day_month s"
    using d w s m tw by (auto simp: spec_day_month_def digits_def word_chars_def)
qed

lemma spec_day_month_match:
  "spec_day_month s \<longleftrightarrow>
   (\<exists>segs month. regex_match dMon s = Some segs \<and>
      map_of month_map (toLowerCase (grp segs 2)) = Some month)"
proof
  assume "spec_day_month s"
  then obtain d w month where d: "digits 1 d \<or> digits 2 d" and w: "word_chars 3 w"
    and s: "s = d @ ''-'' @ w" and m: "map_of month_map (toLowerCase w) = Some month"
    unfolding spec_day_month_iff by blast
  have "regex_match dMon s = Some [d, ''-'', w]"
    unfolding dMon_match_iff using d w s by blast
  moreover have "grp [d, ''-'', w] 2 = w" by (simp add: grp_def)
  ultimately show "\<exists>segs month. regex_match dMon s = Some segs \<and>
      map_of month_map (toLowerCase (grp segs 2)) = Some month"
    using m by auto
next
  assume "\<exists>segs month. regex_match dMon s = Some segs \<and>
      map_of month_map (toLowerCase (grp segs 2)) = Some month"
  then obtain segs month where r: "regex_match dMon s = Some segs"
    and m: "map_of month_map (toLowerCase (grp segs 2)) = Some month" by blast
  from r obtain d w where d: "digits 1 d \<or> digits 2 d" and w: "word_chars 3 w"
    and s: "s = d @ ''-'' @ w" and g: "segs = [d, ''-'', w]"
    unfolding dMon_match_iff by blast
  have "grp segs 2 = w" by (simp add: g grp_def)
  with m d w s show "spec_day_month s"
    unfolding spec_day_month_iff by auto
qed

text \<open>No string is of two formats, so the order decides nothing that the formats do not.\<close>

lemma formats_exclusive:
  assumes "spec_matches f s" "spec_matches g s"
  shows "f = g"
proof -
  have d: "\<not> regex_test iso s \<and> \<not> regex_test ymdSlash s \<and> \<not> regex_test dmySlash s"
    if "spec_day_month s"
    using that dMon_not_others unfolding spec_day_month_match by blast
  have e: "spec_matches DayAbbrMonth s = spec_day_month s"
    by (simp add: spec_matches_def)
  show ?thesis
    using assms iso_not_ymdSlash [of s] iso_not_dmySlash [of s] ymdSlash_not_dmySlash [of s] d
    by (cases f; cases g)
      (auto simp: spec_matches_ISO spec_matches_SlashYearFirst spec_matches_SlashDayFirst e)
qed

section \<open>Where an Invalid Date can arise\<close>

lemma Date_UTC_2025_valid:
  assumes "1 \<le> m" "m \<le> 12" "0 \<le> d" "d \<le> 99"
  shows "Date_UTC 2025 (m - 1) (Some d) \<noteq> None"
proof -
  have "MakeDay 2025 (m - 1) d = 20089 + month_start (m - 1) 0 + d - 1"
    using assms(1,2) by (simp add: MakeDay_in_year DayFromYear_def DaysInYear_def)
  moreover have "0 \<le> month_start (m - 1) 0 \<and> month_start (m - 1) 0 \<le> 335"
    by (rule month_start_bounds) simp_all
  ultimately have "0 \<le> MakeDay 2025 (m - 1) d \<and> MakeDay 2025 (m - 1) d \<le> 30000"
    using assms(3,4) by simp
  then show ?thesis
    by (simp add: Date_UTC_def TimeClip_def MakeDate_def msPerDay_def maxTime_def)
qed

lemma generic_fallback_valid: "generic_fallback E s \<noteq> Some (Date None)"
  by (auto simp: generic_fallback_def Let_def)

text \<open>
  An Invalid Date comes out of the three numeric branches only: the day-month branch
  always builds a date, and the fallback tests its result.
\<close>

lemma invalid_only_numeric:
  assumes "parseDateAssume2025 E (Some s) = Some (Date None)"
  shows "regex_test iso s \<or> regex_test ymdSlash s \<or> regex_test dmySlash s"
proof (rule ccontr)
  assume "\<not> (regex_test iso s \<or> regex_test ymdSlash s \<or> regex_test dmySlash s)"
  then have n: "\<not> regex_test iso s" "\<not> regex_test ymdSlash s" "\<not> regex_test dmySlash s"
    by simp_all
  have ne: "s \<noteq> []" using assms by (auto simp: parseDateAssume2025_def)
  show False
  proof (cases "regex_match dMon s")
    case None
    then show False
      using parse_no_match [OF ne n None, of E] assms generic_fallback_valid [of E s] by simp
  next
    case (Some segs)
    then obtain d w where d: "digits 1 d \<or> digits 2 d" and w: "word_chars 3 w"
      and s: "s = d @ ''-'' @ w"
      unfolding dMon_match_iff by blast
    show False
    proof (cases "map_of month_map (toLowerCase w)")
      case None
      then show False
        using parse_dMon_unknown [OF d w None, of E] assms generic_fallback_valid [of E s]
        by (simp add: s)
    next
      case (Some month)
      have r: "0 \<le> decimal d \<and> decimal d \<le> 99"
        using d decimal_digits_1 [of d] decimal_digits_2 [of d] by auto
      have "Date_UTC 2025 (month - 1) (Some (decimal d)) \<noteq> None"
        using month_map_range [OF Some] r by (intro Date_UTC_2025_valid) simp_all
      then show False
        using parse_dMon_shape [OF d w Some, of E] assms by (simp add: s)
    qed
  qed
qed

section \<open>The claims\<close>

text \<open>
  C1. For every input (any string or \<^verbatim>\<open>null\<close>) \<^verbatim>\<open>parseDateAssume2025\<close> returns either a
  valid calendar date or \<^verbatim>\<open>null\<close>; it never throws and never returns an invalid date.
  The model is total, so nothing is thrown. The last part fails: on a string that
  matches the ISO pattern but names no month, such as \<^verbatim>\<open>2025-13-01\<close>, the function
  returns a \<^verbatim>\<open>Date\<close> object whose time value is \<^verbatim>\<open>NaN\<close>, on every implementation.
  Only the fallback of lines 120 to 122 tests \<^verbatim>\<open>isNaN(d.getTime())\<close>.
\<close>

theorem C1_invalid_date_returned:
  "parseDateAssume2025 E (Some ''2025-13-01'') = Some (Date None)"
  using parse_iso_shape [of "''2025''" "''13''" "''01''" E]
  by (simp add: eval_digits eval_decimal date_value_def)

text \<open>
  C2. The claim reads: if \<^verbatim>\<open>existingRenewal\<close> parses, \<^verbatim>\<open>computeRenewalDate\<close> returns
  that date verbatim, also when it is earlier than \<^verbatim>\<open>charging\<close>; if it does not parse
  but \<^verbatim>\<open>charging\<close> does, the result is \<^verbatim>\<open>charging\<close> plus 30 days; if neither parses,
  \<^verbatim>\<open>null\<close>. The middle part does not hold for every input: a \<^verbatim>\<open>Date\<close> holds at most
  8.64e15 milliseconds on either side of the epoch, so 30 days after the last
  representable day, 13 September 275760, there is no date, and \<^verbatim>\<open>setUTCDate\<close> leaves
  an Invalid Date.
\<close>

theorem C2_counterexample:
  "parseDateAssume2025 strict_engine None = None \<and>
   parseDateAssume2025 strict_engine (Some ''+275760-09-13T00:00:00Z'') =
     Some (Date (Some 8640000000000000)) \<and>
   computeRenewalDate strict_engine (Some ''+275760-09-13T00:00:00Z'') None = Some (Date None)"
proof -
  have a: "parseDateAssume2025 strict_engine None = None"
    by (simp add: parseDateAssume2025_def)
  show ?thesis
    using renewal_derived [OF a parse_expanded_year [of strict_engine]] a parse_expanded_year
    by (simp add: TimeClip_def maxTime_def msPerDay_def)
qed

text \<open>
  C2, as the code has it. If \<^verbatim>\<open>existingRenewal\<close> parses to a valid date, that date is
  returned verbatim, whatever \<^verbatim>\<open>charging\<close> is. If \<^verbatim>\<open>parseDateAssume2025\<close> gives
  \<^verbatim>\<open>null\<close> for \<^verbatim>\<open>existingRenewal\<close> and a valid date for \<^verbatim>\<open>charging\<close>, the result is
  that date plus 30 days when this instant is within the range of \<^verbatim>\<open>Date\<close>, and an
  Invalid Date otherwise. If it gives \<^verbatim>\<open>null\<close> for both, the result is \<^verbatim>\<open>null\<close>.
\<close>

theorem C2_renewal_precedence:
  "(parseDateAssume2025 E existingRenewal = Some (Date (Some t)) \<longrightarrow>
      computeRenewalDate E charging existingRenewal = Some (Date (Some t))) \<and>
   (parseDateAssume2025 E existingRenewal = None \<and>
    parseDateAssume2025 E charging = Some (Date (Some u)) \<longrightarrow>
      computeRenewalDate E charging existingRenewal =
        Some (Date (if \<bar>u + 30 * msPerDay\<bar> \<le> maxTime then Some (u + 30 * msPerDay) else None))) \<and>
   (parseDateAssume2025 E existingRenewal = None \<and> parseDateAssume2025 E charging = None \<longrightarrow>
      computeRenewalDate E charging existingRenewal = None)"
proof (intro conjI impI)
  assume "parseDateAssume2025 E existingRenewal = Some (Date (Some t))"
  then show "computeRenewalDate E charging existingRenewal = Some (Date (Some t))"
    by (simp add: computeRenewalDate_def)
next
  assume "parseDateAssume2025 E existingRenewal = None \<and>
    parseDateAssume2025 E charging = Some (Date (Some u))"
  then show "computeRenewalDate E charging existingRenewal =
        Some (Date (if \<bar>u + 30 * msPerDay\<bar> \<le> maxTime then Some (u + 30 * msPerDay) else None))"
    using renewal_derived [of E existingRenewal charging u] by (auto simp: TimeClip_def)
next
  assume "parseDateAssume2025 E existingRenewal = None \<and> parseDateAssume2025 E charging = None"
  then show "computeRenewalDate E charging existingRenewal = None"
    by (simp add: computeRenewalDate_def)
qed

theorem C2_renewal_precedence_witness:
  "parseDateAssume2025 strict_engine (Some ''2025-01-01'') = Some (Date (Some 1735689600000)) \<and>
   parseDateAssume2025 strict_engine (Some ''2025-08-05'') = Some (Date (Some 1754352000000)) \<and>
   computeRenewalDate strict_engine (Some ''2025-08-05'') (Some ''2025-01-01'') =
     Some (Date (Some 1735689600000)) \<and>
   parseDateAssume2025 strict_engine None = None \<and>
   computeRenewalDate strict_engine (Some ''2025-08-05'') None = Some (Date (Some 1756944000000)) \<and>
   computeRenewalDate strict_engine None None = None"
  using C2_renewal_precedence [of strict_engine "Some ''2025-01-01''" 1735689600000 "Some ''2025-08-05''"]
    C2_renewal_precedence [of strict_engine None _ "Some ''2025-08-05''" 1754352000000]
    C2_renewal_precedence [of strict_engine None _ None]
  by (simp add: parse_20250101 parse_20250805 parse_null msPerDay_def maxTime_def)

text \<open>
  C3. \<^verbatim>\<open>parseDateAssume2025\<close> tries the formats in the fixed order ISO, slash
  year-first, slash day-first, day-abbreviated-month, and then the generic fallback: on
  every input its result is the one of the branch of the first format in this order
  that the input is of, and the fallback's when it is of none.
\<close>

theorem C3_precedence: "parseDateAssume2025 E raw = spec_parse E raw"
proof (cases raw)
  case None
  then show ?thesis by (simp add: parseDateAssume2025_def spec_parse_def)
next
  case (Some s)
  note m = spec_matches_ISO spec_matches_SlashYearFirst spec_matches_SlashDayFirst
  consider (empty) "s = []"
    | (iso) "s \<noteq> []" "regex_test iso s"
    | (ymd) "s \<noteq> []" "\<not> regex_test iso s" "regex_test ymdSlash s"
    | (dmy) "s \<noteq> []" "\<not> regex_test iso s" "\<not> regex_test ymdSlash s" "regex_test dmySlash s"
    | (dmon) "s \<noteq> []" "\<not> regex_test iso s" "\<not> regex_test ymdSlash s" "\<not> regex_test dmySlash s"
        "spec_day_month s"
    | (none) "s \<noteq> []" "\<not> regex_test iso s" "\<not> regex_test ymdSlash s" "\<not> regex_test dmySlash s"
        "\<not> spec_day_month s"
    by blast
  then show ?thesis
  proof cases
    case empty
    then show ?thesis by (simp add: Some parseDateAssume2025_def spec_parse_def)
  next
    case iso
    then show ?thesis
      by (simp add: Some parseDateAssume2025_def spec_parse_def format_order_def m branch_result_def)
  next
    case ymd
    then show ?thesis
      by (simp add: Some parseDateAssume2025_def spec_parse_def format_order_def m branch_result_def)
  next
    case dmy
    then show ?thesis
      by (simp add: Some parseDateAssume2025_def spec_parse_def format_order_def m branch_result_def)
  next
    case dmon
    from dmon(5) obtain segs month where "regex_match dMon s = Some segs"
      "map_of month_map (toLowerCase (grp segs 2)) = Some month"
      unfolding spec_day_month_match by blast
    with dmon month_map_range [of "toLowerCase (grp segs 2)" month] show ?thesis
      by (simp add: Some parseDateAssume2025_def spec_parse_def format_order_def m
          branch_result_def spec_matches_def [of DayAbbrMonth] string_match_def dMon_groups_def
          grp_def Let_def)
  next
    case none
    have "case string_match dMon dMon_groups s of None \<Rightarrow> True
        | Some mm \<Rightarrow> map_of month_map (toLowerCase (grp mm 2)) = None"
      using none(5) unfolding spec_day_month_match
      by (auto simp: string_match_def dMon_groups_def grp_def split: option.splits)
    with none show ?thesis
      by (auto simp: Some parseDateAssume2025_def spec_parse_def format_order_def m
          spec_matches_def [of DayAbbrMonth] generic_fallback_def Let_def split: option.splits)
  qed
qed

text \<open>
  C4. For every input \<^verbatim>\<open>D-Mon\<close> or \<^verbatim>\<open>DD-Mon\<close> whose three letters are, in any case, one
  of the twelve abbreviations, the result is \<^verbatim>\<open>new Date(Date.UTC(2025, month - 1, day))\<close>
  with the day read from the numeral and the month from the table; when the month has
  that day, the result shows the year 2025, that month and that day. \<^verbatim>\<open>5-Aug\<close>,
  \<^verbatim>\<open>5-AUG\<close> and \<^verbatim>\<open>5-aug\<close> all give 5 August 2025. Three word characters that are not
  in the table lead to the generic fallback.
\<close>

theorem C4_day_month_form:
  "((digits 1 d \<or> digits 2 d) \<and> length w = 3 \<and> map_of month_map (toLowerCase w) = Some month \<longrightarrow>
      parseDateAssume2025 E (Some (d @ ''-'' @ w)) =
        Some (Date (Date_UTC 2025 (month - 1) (Some (decimal d)))) \<and>
      (1 \<le> decimal d \<and> decimal d \<le> days_in_month 2025 month \<longrightarrow>
         map_option utc_ymd (parseDateAssume2025 E (Some (d @ ''-'' @ w))) =
           Some (Some (2025, month, decimal d)))) \<and>
   map_option utc_ymd (parseDateAssume2025 E (Some ''5-Aug'')) = Some (Some (2025, 8, 5)) \<and>
   map_option utc_ymd (parseDateAssume2025 E (Some ''5-AUG'')) = Some (Some (2025, 8, 5)) \<and>
   map_option utc_ymd (parseDateAssume2025 E (Some ''5-aug'')) = Some (Some (2025, 8, 5)) \<and>
   ((digits 1 d \<or> digits 2 d) \<and> word_chars 3 w \<and> map_of month_map (toLowerCase w) = None \<longrightarrow>
      parseDateAssume2025 E (Some (d @ ''-'' @ w)) = generic_fallback E (d @ ''-'' @ w))"
proof -
  have gen: "parseDateAssume2025 E (Some (d @ ''-'' @ w)) =
        Some (Date (Date_UTC 2025 (month - 1) (Some (decimal d))))"
    if "digits 1 d \<or> digits 2 d" "length w = 3" "map_of month_map (toLowerCase w) = Some month"
    for d w month
    using parse_dMon_shape [OF that(1) table_word_chars [OF that(2,3)] that(3)] .
  have val: "map_option utc_ymd (parseDateAssume2025 E (Some (d @ ''-'' @ w))) =
           Some (Some (2025, month, decimal d))"
    if h: "digits 1 d \<or> digits 2 d" "length w = 3" "map_of month_map (toLowerCase w) = Some month"
      and v: "1 \<le> decimal d" "decimal d \<le> days_in_month 2025 month"
    for d w month
  proof -
    have m: "1 \<le> month" "month \<le> 12" using month_map_range [OF h(3)] by simp_all
    have d31: "decimal d \<le> 31" using v(2) days_in_month_le_31 [of 2025 month] by simp
    show ?thesis
      unfolding gen [OF h] Date_UTC_2025 [OF m v(1) d31]
      using utc_ymd_eval [OF m v refl] by simp
  qed
  have ex: "map_option utc_ymd (parseDateAssume2025 E (Some (''5'' @ ''-'' @ w))) =
      Some (Some (2025, 8, 5))" if "word_chars 3 w" "toLowerCase w = ''aug''" for w
    using val [of "''5''" w 8] that
    by (simp add: eval_words word_chars_def days_in_month_def)
  have ex3: "map_option utc_ymd (parseDateAssume2025 E (Some ''5-Aug'')) = Some (Some (2025, 8, 5))"
    "map_option utc_ymd (parseDateAssume2025 E (Some ''5-AUG'')) = Some (Some (2025, 8, 5))"
    "map_option utc_ymd (parseDateAssume2025 E (Some ''5-aug'')) = Some (Some (2025, 8, 5))"
    using ex [of "''Aug''"] ex [of "''AUG''"] ex [of "''aug''"] by (simp_all add: eval_words)
  show ?thesis
    using gen val ex3 parse_dMon_unknown [of d w E] by blast
qed

theorem C4_day_month_form_witness:
  "digits 2 ''31'' \<and> length ''Dec'' = 3 \<and> map_of month_map (toLowerCase ''Dec'') = Some 12 \<and>
   decimal ''31'' = 31 \<and> days_in_month 2025 12 = 31 \<and>
   parseDateAssume2025 strict_engine (Some ''31-Dec'') = Some (Date (Some 1767139200000)) \<and>
   map_option utc_ymd (parseDateAssume2025 strict_engine (Some ''31-Dec'')) =
     Some (Some (2025, 12, 31)) \<and>
   word_chars 3 ''xyz'' \<and> map_of month_map (toLowerCase ''xyz'') = None \<and>
   parseDateAssume2025 strict_engine (Some ''5-xyz'') = generic_fallback strict_engine ''5-xyz''"
proof -
  have a: "digits 2 ''31''" "length ''Dec'' = 3" "map_of month_map (toLowerCase ''Dec'') = Some 12"
    "decimal ''31'' = 31" "days_in_month 2025 12 = 31"
    "word_chars 3 ''xyz''" "map_of month_map (toLowerCase ''xyz'') = None" "digits (Suc 0) ''5''"
    by (simp_all add: toLowerCase_def lower_char_def month_map_def string_eval days_in_month_def
        word_chars_def)
  have v: "Date_UTC 2025 11 (Some 31) = Some 1767139200000"
    by (simp add: Date_UTC_def date_eval TimeClip_def maxTime_def)
  show ?thesis
    using C4_day_month_form [of "''31''" "''Dec''" 12 strict_engine]
      C4_day_month_form [of "''5''" "''xyz''" _ strict_engine] a v
    by auto
qed

text \<open>
  C5. For every input matching \<^verbatim>\<open>DD/MM/YYYY\<close> the day, the month and the year are taken
  by position, the day first: the result is the date built from the year in characters
  7 to 10, the month in characters 4 and 5 and the day in characters 1 and 2, and when
  these name a day of the calendar the result shows exactly that year, month and day.
  \<^verbatim>\<open>parse("05/08/2025")\<close> is 5 August 2025.
\<close>

theorem C5_dmySlash_day_first:
  "(regex_test dmySlash s \<longrightarrow>
      parseDateAssume2025 E (Some s) =
        Some (Date (date_value E (decimal (drop 6 s)) (decimal (take 2 (drop 3 s)))
                                 (decimal (take 2 s)))) \<and>
      (1 \<le> decimal (take 2 (drop 3 s)) \<and> decimal (take 2 (drop 3 s)) \<le> 12 \<and>
       1 \<le> decimal (take 2 s) \<and>
       decimal (take 2 s) \<le> days_in_month (decimal (drop 6 s)) (decimal (take 2 (drop 3 s)))
       \<longrightarrow> map_option utc_ymd (parseDateAssume2025 E (Some s)) =
             Some (Some (decimal (drop 6 s), decimal (take 2 (drop 3 s)), decimal (take 2 s)))))
   \<and> map_option utc_ymd (parseDateAssume2025 E (Some ''05/08/2025'')) = Some (Some (2025, 8, 5))"
proof -
  have gen: "parseDateAssume2025 E (Some s) =
        Some (Date (date_value E (decimal (drop 6 s)) (decimal (take 2 (drop 3 s)))
                                 (decimal (take 2 s))))" if "regex_test dmySlash s" for s
  proof -
    from that obtain d m y where f: "digits 2 d" "digits 2 m" "digits 4 y"
      and s: "s = d @ ''/'' @ m @ ''/'' @ y"
      unfolding dmySlash_test_iff by blast
    have p: "take 2 s = d" "take 2 (drop 3 s) = m" "drop 6 s = y"
      using f by (simp_all add: s digits_def)
    show ?thesis
      unfolding p using parse_dmySlash_shape [OF f, of E] clip_date_value [OF f(3,2,1), of E]
      by (simp add: s)
  qed
  have val: "map_option utc_ymd (parseDateAssume2025 E (Some s)) =
      Some (Some (decimal (drop 6 s), decimal (take 2 (drop 3 s)), decimal (take 2 s)))"
    if "regex_test dmySlash s" "1 \<le> decimal (take 2 (drop 3 s))" "decimal (take 2 (drop 3 s)) \<le> 12"
      "1 \<le> decimal (take 2 s)"
      "decimal (take 2 s) \<le> days_in_month (decimal (drop 6 s)) (decimal (take 2 (drop 3 s)))" for s
    unfolding gen [OF that(1)]
    using utc_ymd_date_value [OF date_value_valid [OF that(2-5), of E] that(5)]
      date_value_valid [OF that(2-5), of E]
    by simp
  have t: "regex_test dmySlash ''05/08/2025''"
    unfolding dmySlash_test_iff
    by (intro exI [of _ "''05''"] exI [of _ "''08''"] exI [of _ "''2025''"]) (simp add: eval_digits)
  have ex: "map_option utc_ymd (parseDateAssume2025 E (Some ''05/08/2025'')) = Some (Some (2025, 8, 5))"
    using val [OF t] by (simp add: eval_decimal days_in_month_def)
  show ?thesis using gen val ex by blast
qed

theorem C5_dmySlash_day_first_witness:
  "regex_test dmySlash ''31/12/1999'' \<and>
   parseDateAssume2025 strict_engine (Some ''31/12/1999'') = Some (Date (Some 946598400000)) \<and>
   map_option utc_ymd (parseDateAssume2025 strict_engine (Some ''31/12/1999'')) =
     Some (Some (1999, 12, 31))"
proof -
  have t: "regex_test dmySlash ''31/12/1999''"
    by (simp add: dmySlash_def string_eval)
  have f: "decimal (drop 6 ''31/12/1999'') = 1999" "decimal (take 2 (drop 3 ''31/12/1999'')) = 12"
    "decimal (take 2 ''31/12/1999'') = 31"
    by (simp_all add: string_eval)
  have v: "date_value strict_engine 1999 12 31 = Some 946598400000"
    by (simp add: date_eval strict_engine_def)
  have d: "days_in_month 1999 12 = 31"
    by (simp add: days_in_month_def)
  show ?thesis
    using C5_dmySlash_day_first [of "''31/12/1999''" strict_engine] t
    unfolding f v d by auto
qed

text \<open>
  C6. For every input matching \<^verbatim>\<open>YYYY/MM/DD\<close>, replacing the slashes by hyphens gives
  a string of the ISO form, and parsing either gives the same result.
  \<^verbatim>\<open>parse("2025/08/05")\<close> equals \<^verbatim>\<open>parse("2025-08-05")\<close>, which is 5 August 2025.
\<close>

theorem C6_ymdSlash_as_iso:
  "(regex_test ymdSlash s \<longrightarrow>
      regex_test iso (replace_all CHR ''/'' ''-'' s) \<and>
      parseDateAssume2025 E (Some s) = parseDateAssume2025 E (Some (replace_all CHR ''/'' ''-'' s)))
   \<and> parseDateAssume2025 E (Some ''2025/08/05'') = parseDateAssume2025 E (Some ''2025-08-05'')
   \<and> map_option utc_ymd (parseDateAssume2025 E (Some ''2025-08-05'')) = Some (Some (2025, 8, 5))"
proof -
  have gen: "regex_test iso (replace_all CHR ''/'' ''-'' s) \<and>
      parseDateAssume2025 E (Some s) = parseDateAssume2025 E (Some (replace_all CHR ''/'' ''-'' s))"
    if "regex_test ymdSlash s" for s
  proof -
    from that obtain y m d where f: "digits 4 y" "digits 2 m" "digits 2 d"
      and s: "s = y @ ''/'' @ m @ ''/'' @ d"
      unfolding ymdSlash_test_iff by blast
    have r: "replace_all CHR ''/'' ''-'' s = y @ ''-'' @ m @ ''-'' @ d"
      using f by (simp add: s replace_all_append replace_all_Cons replace_all_digits digits_def)
    have "regex_test iso (y @ ''-'' @ m @ ''-'' @ d)"
      unfolding iso_test_iff using f by blast
    then show ?thesis
      unfolding r unfolding s
      using parse_ymdSlash_shape [OF f, of E] parse_iso_shape [OF f, of E] by simp
  qed
  have a: "parseDateAssume2025 E (Some ''2025/08/05'') = Some (Date (Some 1754352000000))"
    using parse_ymdSlash_shape [of "''2025''" "''08''" "''05''" E]
    by (simp add: eval_digits eval_decimal eval_20250805 clip_def TimeClip_def maxTime_def)
  have b: "parseDateAssume2025 E (Some ''2025-08-05'') = Some (Date (Some 1754352000000))"
    using parse_iso_shape [of "''2025''" "''08''" "''05''" E]
    by (simp add: eval_digits eval_decimal eval_20250805 clip_def TimeClip_def maxTime_def)
  have c: "utc_ymd (Date (Some 1754352000000)) = Some (2025, 8, 5)"
    by (rule utc_ymd_date_value [OF eval_20250805 [of E]]) (simp add: days_in_month_def)
  show ?thesis using gen a b c by simp
qed

theorem C6_ymdSlash_as_iso_witness:
  "regex_test ymdSlash ''1999/12/31'' \<and>
   replace_all CHR ''/'' ''-'' ''1999/12/31'' = ''1999-12-31'' \<and>
   regex_test iso ''1999-12-31'' \<and>
   parseDateAssume2025 strict_engine (Some ''1999/12/31'') =
     parseDateAssume2025 strict_engine (Some ''1999-12-31'')"
proof -
  have t: "regex_test ymdSlash ''1999/12/31''"
    by (simp add: ymdSlash_def string_eval)
  have r: "replace_all CHR ''/'' ''-'' ''1999/12/31'' = ''1999-12-31''"
    by (simp add: replace_all_def)
  show ?thesis
    using C6_ymdSlash_as_iso [of "''1999/12/31''" strict_engine] t unfolding r by simp
qed

text \<open>
  C7. The claim reads: the derivation adds exactly 30 calendar days in UTC, across month
  and year boundaries. From 1 September 275760 on it does not: the sum leaves the range
  of \<^verbatim>\<open>Date\<close> and the result is an Invalid Date.
\<close>

theorem C7_counterexample:
  "parseDateAssume2025 strict_engine (Some ''+275760-09-01T00:00:00Z'') =
     Some (Date (Some 8639998963200000)) \<and>
   map_option utc_ymd (parseDateAssume2025 strict_engine (Some ''+275760-09-01T00:00:00Z'')) =
     Some (Some (275760, 9, 1)) \<and>
   computeRenewalDate strict_engine (Some ''+275760-09-01T00:00:00Z'') None = Some (Date None)"
proof -
  have u: "utc_ymd (Date (Some 8639998963200000)) = Some (275760, 9, 1)"
    by (rule utc_ymd_eval) (simp_all add: date_eval)
  show ?thesis
    using renewal_derived [OF parse_null parse_expanded_year_early [of strict_engine]]
      parse_expanded_year_early [of strict_engine] u
    by (simp add: TimeClip_def maxTime_def msPerDay_def)
qed

text \<open>
  C7, as the code has it. When no renewal date is on record and the charging date is
  valid, the result is the charging instant plus 30 times 86400000 milliseconds, that
  is, the day number plus 30 at the same time of day, whenever this instant is within the
  range of \<^verbatim>\<open>Date\<close>; beyond the range the result is an Invalid Date. The month and the
  year carry: 5 August 2025 gives 4 September 2025, and 15 December 2025 gives
  14 January 2026.
\<close>

theorem C7_thirty_days:
  "(parseDateAssume2025 E existingRenewal = None \<and>
    parseDateAssume2025 E charging = Some (Date (Some t)) \<and>
    \<bar>t + 30 * msPerDay\<bar> \<le> maxTime \<longrightarrow>
      computeRenewalDate E charging existingRenewal = Some (Date (Some (t + 30 * msPerDay))) \<and>
      Day (t + 30 * msPerDay) = Day t + 30 \<and>
      TimeWithinDay (t + 30 * msPerDay) = TimeWithinDay t) \<and>
   (parseDateAssume2025 E existingRenewal = None \<and>
    parseDateAssume2025 E charging = Some (Date (Some t)) \<and>
    maxTime < \<bar>t + 30 * msPerDay\<bar> \<longrightarrow>
      computeRenewalDate E charging existingRenewal = Some (Date None)) \<and>
   map_option utc_ymd (computeRenewalDate E (Some ''2025-08-05'') None) = Some (Some (2025, 9, 4)) \<and>
   map_option utc_ymd (computeRenewalDate E (Some ''2025-12-15'') None) = Some (Some (2026, 1, 14))"
proof -
  have a: "computeRenewalDate E (Some ''2025-08-05'') None = Some (Date (Some 1756944000000))"
    using renewal_derived [OF parse_null parse_20250805, of E]
    by (simp add: TimeClip_def maxTime_def msPerDay_def)
  have b: "computeRenewalDate E (Some ''2025-12-15'') None = Some (Date (Some 1768348800000))"
    using renewal_derived [OF parse_null parse_20251215, of E]
    by (simp add: TimeClip_def maxTime_def msPerDay_def)
  have ua: "utc_ymd (Date (Some 1756944000000)) = Some (2025, 9, 4)"
    by (rule utc_ymd_eval) (simp_all add: date_eval)
  have ub: "utc_ymd (Date (Some 1768348800000)) = Some (2026, 1, 14)"
    by (rule utc_ymd_eval) (simp_all add: date_eval)
  show ?thesis
    using renewal_derived [of E existingRenewal charging t]
    by (auto simp: a b ua ub TimeClip_def Day_plus_days TimeWithinDay_plus_days)
qed

theorem C7_thirty_days_witness:
  "parseDateAssume2025 strict_engine None = None \<and>
   parseDateAssume2025 strict_engine (Some ''2025-12-15'') = Some (Date (Some 1765756800000)) \<and>
   computeRenewalDate strict_engine (Some ''2025-12-15'') None = Some (Date (Some 1768348800000)) \<and>
   Day 1768348800000 = Day 1765756800000 + 30 \<and>
   parseDateAssume2025 strict_engine (Some ''+275760-09-13T00:00:00Z'') =
     Some (Date (Some 8640000000000000)) \<and>
   computeRenewalDate strict_engine (Some ''+275760-09-13T00:00:00Z'') None = Some (Date None)"
  using C7_thirty_days [of strict_engine None "Some ''2025-12-15''" 1765756800000]
    C7_thirty_days [of strict_engine None "Some ''+275760-09-13T00:00:00Z''" 8640000000000000]
  by (simp add: parse_20251215 parse_expanded_year parse_null msPerDay_def maxTime_def)

text \<open>
  C8. \<^verbatim>\<open>parse(null)\<close> and \<^verbatim>\<open>parse("")\<close> are \<^verbatim>\<open>null\<close>, and so is
  \<^verbatim>\<open>parse("not-a-date")\<close> whenever the implementation's \<^verbatim>\<open>Date.parse\<close> rejects that
  string: it matches none of the four patterns and reaches the generic fallback.
\<close>

theorem C8_absent_and_malformed:
  "parseDateAssume2025 E None = None \<and>
   parseDateAssume2025 E (Some []) = None \<and>
   (native_parse E ''not-a-date'' = None \<longrightarrow>
      parseDateAssume2025 E (Some ''not-a-date'') = None)"
proof -
  have n: "\<not> regex_test iso ''not-a-date''" "\<not> regex_test ymdSlash ''not-a-date''"
    "\<not> regex_test dmySlash ''not-a-date''" "regex_match dMon ''not-a-date'' = None"
    by (simp_all add: iso_def ymdSlash_def dmySlash_def dMon_def string_eval)
  have p: "Date_parse E ''not-a-date'' = native_parse E ''not-a-date''"
    by (simp add: Date_parse_def utc_midnight_def string_eval)
  have "parseDateAssume2025 E (Some ''not-a-date'') = None"
    if "native_parse E ''not-a-date'' = None"
    using parse_no_match [OF _ n, of E] that p
    by (simp add: generic_fallback_def new_Date_string_def)
  then show ?thesis
    by (simp add: parseDateAssume2025_def)
qed

theorem C8_absent_and_malformed_witness:
  "native_parse strict_engine ''not-a-date'' = None \<and>
   parseDateAssume2025 strict_engine (Some ''not-a-date'') = None"
  using C8_absent_and_malformed [of strict_engine] by (simp add: strict_engine_def)

text \<open>
  C9. The two copies are extensionally equal: for every input the functions of
  \<^verbatim>\<open>UserDashboard.tsx\<close> return what those of \<^verbatim>\<open>CustomerTable.tsx\<close> return.
\<close>

theorem C9_copies_agree:
  "UserDashboard_parseDateAssume2025 E dateString = parseDateAssume2025 E dateString \<and>
   UserDashboard_computeRenewalDate E charging existingRenewal =
     computeRenewalDate E charging existingRenewal"
proof -
  have p: "UserDashboard_iso = iso" "UserDashboard_ymdSlash = ymdSlash"
    "UserDashboard_dmySlash = dmySlash" "UserDashboard_dMon = dMon"
    "UserDashboard_dMon_groups = dMon_groups" "UserDashboard_month_map = month_map"
    by (simp_all add: UserDashboard_iso_def iso_def UserDashboard_ymdSlash_def ymdSlash_def
        UserDashboard_dmySlash_def dmySlash_def UserDashboard_dMon_def dMon_def
        UserDashboard_dMon_groups_def dMon_groups_def UserDashboard_month_map_def month_map_def)
  have q: "UserDashboard_parseDateAssume2025 E x = parseDateAssume2025 E x" for x
    unfolding UserDashboard_parseDateAssume2025_def parseDateAssume2025_def p ..
  show ?thesis
    unfolding UserDashboard_computeRenewalDate_def computeRenewalDate_def q by simp
qed

text \<open>
  C10. A string of three digit fields separated by slashes in which some field has a
  single digit, such as \<^verbatim>\<open>5/8/2025\<close>, does not match the day-first pattern, nor any
  other: the result is the generic fallback's, that is, whatever the implementation's
  \<^verbatim>\<open>Date.parse\<close> makes of the string, or \<^verbatim>\<open>null\<close> if it rejects it. The three
  numeric patterns take a day and a month of two digits only; the day-month pattern takes
  \<^verbatim>\<open>5-Aug\<close>.
\<close>

theorem C10_single_digit_slash:
  "(list_all is_digit f1 \<and> list_all is_digit f2 \<and> list_all is_digit f3 \<and>
    (length f1 = 1 \<or> length f2 = 1 \<or> length f3 = 1) \<longrightarrow>
      \<not> regex_test dmySlash (f1 @ ''/'' @ f2 @ ''/'' @ f3) \<and>
      parseDateAssume2025 E (Some (f1 @ ''/'' @ f2 @ ''/'' @ f3)) =
        generic_fallback E (f1 @ ''/'' @ f2 @ ''/'' @ f3) \<and>
      generic_fallback E (f1 @ ''/'' @ f2 @ ''/'' @ f3) =
        (case native_parse E (f1 @ ''/'' @ f2 @ ''/'' @ f3) of
           None \<Rightarrow> None
         | Some t \<Rightarrow> if \<bar>t\<bar> \<le> maxTime then Some (Date (Some t)) else None)) \<and>
   (regex_test dmySlash s \<longrightarrow> digits 2 (take 2 s) \<and> digits 2 (take 2 (drop 3 s))) \<and>
   (regex_test iso s \<or> regex_test ymdSlash s \<longrightarrow>
      digits 2 (take 2 (drop 5 s)) \<and> digits 2 (drop 8 s)) \<and>
   regex_test dMon ''5-Aug''"
proof -
  have one: "\<not> regex_test dmySlash (f1 @ ''/'' @ f2 @ ''/'' @ f3) \<and>
      parseDateAssume2025 E (Some (f1 @ ''/'' @ f2 @ ''/'' @ f3)) =
        generic_fallback E (f1 @ ''/'' @ f2 @ ''/'' @ f3) \<and>
      generic_fallback E (f1 @ ''/'' @ f2 @ ''/'' @ f3) =
        (case native_parse E (f1 @ ''/'' @ f2 @ ''/'' @ f3) of
           None \<Rightarrow> None
         | Some t \<Rightarrow> if \<bar>t\<bar> \<le> maxTime then Some (Date (Some t)) else None)"
    if f: "list_all is_digit f1" "list_all is_digit f2" "list_all is_digit f3"
      and l: "length f1 = 1 \<or> length f2 = 1 \<or> length f3 = 1"
  proof -
    let ?s = "f1 @ ''/'' @ f2 @ ''/'' @ f3"
    have sl: "CHR ''/'' \<in> set ?s" by simp
    have sp: "split_on CHR ''/'' ?s = [f1, f2, f3]" using split_three [OF f] .
    have n1: "\<not> regex_test iso ?s" using iso_no_slash [of ?s] sl by blast
    have n2: "\<not> regex_test ymdSlash ?s"
    proof
      assume "regex_test ymdSlash ?s"
      then obtain y m d where g: "digits 4 y" "digits 2 m" "digits 2 d"
        and e: "?s = y @ ''/'' @ m @ ''/'' @ d"
        unfolding ymdSlash_test_iff by blast
      have "split_on CHR ''/'' ?s = [y, m, d]"
        unfolding e using g by (intro split_three) (simp_all add: digits_def)
      with sp have "f1 = y" "f2 = m" "f3 = d" by simp_all
      with g l show False by (simp add: digits_def)
    qed
    have n3: "\<not> regex_test dmySlash ?s"
    proof
      assume "regex_test dmySlash ?s"
      then obtain d m y where g: "digits 2 d" "digits 2 m" "digits 4 y"
        and e: "?s = d @ ''/'' @ m @ ''/'' @ y"
        unfolding dmySlash_test_iff by blast
      have "split_on CHR ''/'' ?s = [d, m, y]"
        unfolding e using g by (intro split_three) (simp_all add: digits_def)
      with sp have "f1 = d" "f2 = m" "f3 = y" by simp_all
      with g l show False by (simp add: digits_def)
    qed
    have n4: "regex_match dMon ?s = None"
      using dMon_no_slash [of ?s] sl by (cases "regex_match dMon ?s") auto
    have p: "parseDateAssume2025 E (Some ?s) = generic_fallback E ?s"
      by (rule parse_no_match [OF _ n1 n2 n3 n4]) simp
    have g: "generic_fallback E ?s =
        (case native_parse E ?s of
           None \<Rightarrow> None
         | Some t \<Rightarrow> if \<bar>t\<bar> \<le> maxTime then Some (Date (Some t)) else None)"
      unfolding generic_fallback_def new_Date_string_def Date_parse_native [OF sl]
      by (simp add: clip_def TimeClip_def split: option.split)
    show ?thesis using n3 p g by blast
  qed
  have two: "digits 2 (take 2 s) \<and> digits 2 (take 2 (drop 3 s))" if "regex_test dmySlash s"
    using that unfolding dmySlash_test_iff by (auto simp: digits_def)
  have three: "digits 2 (take 2 (drop 5 s)) \<and> digits 2 (drop 8 s)"
    if "regex_test iso s \<or> regex_test ymdSlash s"
    using that unfolding iso_test_iff ymdSlash_test_iff by (auto simp: digits_def)
  have four: "regex_test dMon ''5-Aug''"
    by (simp add: dMon_def string_eval)
  show ?thesis using one two three four by blast
qed

theorem C10_single_digit_slash_witness:
  "list_all is_digit ''5'' \<and> list_all is_digit ''8'' \<and> list_all is_digit ''2025'' \<and>
   length ''5'' = 1 \<and>
   \<not> regex_test dmySlash ''5/8/2025'' \<and>
   parseDateAssume2025 strict_engine (Some ''5/8/2025'') = None \<and>
   parseDateAssume2025 month_first_engine (Some ''5/8/2025'') = Some (Date (Some 1746662400000)) \<and>
   utc_ymd (Date (Some 1746662400000)) = Some (2025, 5, 8) \<and>
   regex_test dmySlash ''05/08/2025'' \<and> digits 2 (take 2 ''05/08/2025'') \<and>
   regex_test iso ''2025-08-05'' \<and> digits 2 (drop 8 ''2025-08-05'')"
proof -
  have a: "list_all is_digit ''5''" "list_all is_digit ''8''" "list_all is_digit ''2025''"
    "regex_test dmySlash ''05/08/2025''" "regex_test iso ''2025-08-05''"
    by (simp_all add: dmySlash_def iso_def string_eval)
  have u: "utc_ymd (Date (Some 1746662400000)) = Some (2025, 5, 8)"
    by (rule utc_ymd_eval) (simp_all add: date_eval)
  show ?thesis
    using C10_single_digit_slash [of "''5''" "''8''" "''2025''" strict_engine "''05/08/2025''"]
      C10_single_digit_slash [of "''5''" "''8''" "''2025''" month_first_engine "''2025-08-05''"] a u
    by (simp add: strict_engine_def month_first_engine_def maxTime_def)
qed

end
